theory Spec2Isabelle
  imports Main "HOL-Library.Sublist"
begin

unbundle bit_operations_syntax

chapter \<open>CopyApp: the document store, the checkpointer, the fetch coordinator and the text utilities\<close>

text \<open>
  A shallow embedding of \<^verbatim>\<open>src/copyapp.py\<close>. The text of documents is a \<^typ>\<open>string\<close>:
  a sequence of the code points U+0000..U+00FF (\<^term>\<open>of_char c\<close> is the code point of
  \<^term>\<open>c\<close>). Bytes are natural numbers below 256. What a function prints is part of its
  result, as a list of messages; what it reads from the terminal, the clipboard or the
  network is an argument; the file system and the database are passed and returned.
\<close>

section \<open>Text and bytes\<close>

type_synonym byte = nat

text \<open>\<^verbatim>\<open>str.isspace\<close> for one character of U+0000..U+00FF.\<close>

definition isspace :: "char \<Rightarrow> bool" where
  "isspace c \<longleftrightarrow> of_char c \<in> {9, 10, 11, 12, 13, 28, 29, 30, 31, 32, 133, 160 :: nat}"

text \<open>\<^verbatim>\<open>str.lower\<close>: within U+0000..U+00FF the letters A..Z and U+00C0..U+00DE
  (without the multiplication sign U+00D7) move up by 32.\<close>

definition lower_char :: "char \<Rightarrow> char" where
  "lower_char c =
     (let n = (of_char c :: nat)
      in if (65 \<le> n \<and> n \<le> 90) \<or> (192 \<le> n \<and> n \<le> 214) \<or> (216 \<le> n \<and> n \<le> 222)
         then char_of (n + 32) else c)"

definition lower :: "string \<Rightarrow> string" where
  "lower s = map lower_char s"

definition strip :: "string \<Rightarrow> string" where
  "strip s = rev (dropWhile isspace (rev (dropWhile isspace s)))"

text \<open>\<^verbatim>\<open>s.split(sep)\<close> for a separator of one character, here as a predicate: the pieces
  between separators, empty pieces kept.\<close>

fun split_on :: "(char \<Rightarrow> bool) \<Rightarrow> string \<Rightarrow> string list" where
  "split_on P [] = [[]]"
| "split_on P (c # cs) =
     (if P c then [] # split_on P cs
      else (case split_on P cs of [] \<Rightarrow> [[c]] | w # ws \<Rightarrow> (c # w) # ws))"

text \<open>\<^verbatim>\<open>s.split()\<close>: the maximal runs of characters that are not white space.\<close>

definition split_ws :: "string \<Rightarrow> string list" where
  "split_ws s = filter (\<lambda>w. w \<noteq> []) (split_on isspace s)"

definition split_lines :: "string \<Rightarrow> string list" where
  "split_lines s = split_on (\<lambda>c. c = CHR 0x0A) s"

text \<open>\<^verbatim>\<open>'\n'.join(lines)\<close>.\<close>

fun join_lines :: "string list \<Rightarrow> string" where
  "join_lines [] = []"
| "join_lines [l] = l"
| "join_lines (l # ls) = l @ [CHR 0x0A] @ join_lines ls"

text \<open>\<^verbatim>\<open>s.startswith(p)\<close>.\<close>

definition startswith :: "string \<Rightarrow> string \<Rightarrow> bool" where
  "startswith s p \<longleftrightarrow> take (length p) s = p"

text \<open>\<^verbatim>\<open>s.replace(old, repl)\<close> and \<^verbatim>\<open>s.count(old)\<close>: the occurrences of
  \<open>old\<close> are taken from left to right and do not overlap; the empty string occurs
  before every character and at the end.\<close>

function replace_from :: "string \<Rightarrow> string \<Rightarrow> string \<Rightarrow> string" where
  "replace_from old repl s =
     (if old = [] \<or> s = [] then s
      else if startswith s old then repl @ replace_from old repl (drop (length old) s)
      else hd s # replace_from old repl (tl s))"
  by pat_completeness auto
termination
  by (relation "measure (\<lambda>(old, repl, s). length s)") auto

declare replace_from.simps [simp del]

definition replace :: "string \<Rightarrow> string \<Rightarrow> string \<Rightarrow> string" where
  "replace s old repl =
     (if old = [] then repl @ concat (map (\<lambda>c. c # repl) s) else replace_from old repl s)"

function count_from :: "string \<Rightarrow> string \<Rightarrow> nat" where
  "count_from old s =
     (if old = [] \<or> s = [] then 0
      else if startswith s old then Suc (count_from old (drop (length old) s))
      else count_from old (tl s))"
  by pat_completeness auto
termination
  by (relation "measure (\<lambda>(old, s). length s)") auto

declare count_from.simps [simp del]

definition count :: "string \<Rightarrow> string \<Rightarrow> nat" where
  "count s old = (if old = [] then Suc (length s) else count_from old s)"

text \<open>\<^verbatim>\<open>str.encode()\<close>: UTF-8. A code point below U+0080 is one byte, one of
  U+0080..U+00FF is two.\<close>

definition encode_char :: "char \<Rightarrow> byte list" where
  "encode_char c =
     (let n = (of_char c :: nat)
      in if n < 128 then [n] else [192 + n div 64, 128 + n mod 64])"

definition encode :: "string \<Rightarrow> byte list" where
  "encode s = concat (map encode_char s)"

section \<open>\<^verbatim>\<open>hashlib.md5\<close>\<close>

text \<open>MD5 (RFC 1321) on 32-bit words, which are natural numbers with the wrap-around
  written out.\<close>

definition md5_s :: "nat list" where
  "md5_s = [7, 12, 17, 22, 7, 12, 17, 22, 7, 12, 17, 22, 7, 12, 17, 22,
            5, 9, 14, 20, 5, 9, 14, 20, 5, 9, 14, 20, 5, 9, 14, 20,
            4, 11, 16, 23, 4, 11, 16, 23, 4, 11, 16, 23, 4, 11, 16, 23,
            6, 10, 15, 21, 6, 10, 15, 21, 6, 10, 15, 21, 6, 10, 15, 21]"

definition md5_K :: "nat list" where
  "md5_K = [0xd76aa478, 0xe8c7b756, 0x242070db, 0xc1bdceee,
            0xf57c0faf, 0x4787c62a, 0xa8304613, 0xfd469501,
            0x698098d8, 0x8b44f7af, 0xffff5bb1, 0x895cd7be,
            0x6b901122, 0xfd987193, 0xa679438e, 0x49b40821,
            0xf61e2562, 0xc040b340, 0x265e5a51, 0xe9b6c7aa,
            0xd62f105d, 0x02441453, 0xd8a1e681, 0xe7d3fbc8,
            0x21e1cde6, 0xc33707d6, 0xf4d50d87, 0x455a14ed,
            0xa9e3e905, 0xfcefa3f8, 0x676f02d9, 0x8d2a4c8a,
            0xfffa3942, 0x8771f681, 0x6d9d6122, 0xfde5380c,
            0xa4beea44, 0x4bdecfa9, 0xf6bb4b60, 0xbebfbc70,
            0x289b7ec6, 0xeaa127fa, 0xd4ef3085, 0x04881d05,
            0xd9d4d039, 0xe6db99e5, 0x1fa27cf8, 0xc4ac5665,
            0xf4292244, 0x432aff97, 0xab9423a7, 0xfc93a039,
            0x655b59c3, 0x8f0ccc92, 0xffeff47d, 0x85845dd1,
            0x6fa87e4f, 0xfe2ce6e0, 0xa3014314, 0x4e0811a1,
            0xf7537e82, 0xbd3af235, 0x2ad7d2bb, 0xeb86d391]"

text \<open>The \<open>k\<close> low bytes of a number, least significant first, and back.\<close>

fun le_bytes :: "nat \<Rightarrow> nat \<Rightarrow> byte list" where
  "le_bytes 0 n = []"
| "le_bytes (Suc k) n = n mod 256 # le_bytes k (n div 256)"

fun le_word :: "byte list \<Rightarrow> nat" where
  "le_word [] = 0"
| "le_word (b # bs) = b + 256 * le_word bs"

fun chunks :: "nat \<Rightarrow> 'a list \<Rightarrow> 'a list list" where
  "chunks n xs = (if n = 0 \<or> xs = [] then [] else take n xs # chunks n (drop n xs))"

declare chunks.simps [simp del]

definition md5_pad :: "byte list \<Rightarrow> byte list" where
  "md5_pad msg = msg @ [128] @ replicate ((119 - length msg mod 64) mod 64) 0
                   @ le_bytes 8 ((8 * length msg) mod 2 ^ 64)"

definition add32 :: "nat \<Rightarrow> nat \<Rightarrow> nat" where
  "add32 a b = (a + b) mod 4294967296"

definition not32 :: "nat \<Rightarrow> nat" where
  "not32 a = 4294967295 - a"

definition rotl32 :: "nat \<Rightarrow> nat \<Rightarrow> nat" where
  "rotl32 x n = (x * 2 ^ n) mod 4294967296 + x div 2 ^ (32 - n)"

definition md5_F :: "nat \<Rightarrow> nat \<Rightarrow> nat \<Rightarrow> nat \<Rightarrow> nat" where
  "md5_F i B C D =
     (if i < 16 then (B AND C) OR (not32 B AND D)
      else if i < 32 then (D AND B) OR (not32 D AND C)
      else if i < 48 then B XOR C XOR D
      else C XOR (B OR not32 D))"

definition md5_g :: "nat \<Rightarrow> nat" where
  "md5_g i =
     (if i < 16 then i
      else if i < 32 then (5 * i + 1) mod 16
      else if i < 48 then (3 * i + 5) mod 16
      else (7 * i) mod 16)"

fun md5_round :: "nat list \<Rightarrow> nat \<times> nat \<times> nat \<times> nat \<Rightarrow> nat \<Rightarrow> nat \<times> nat \<times> nat \<times> nat" where
  "md5_round M (A, B, C, D) i =
     (D, add32 B (rotl32 (add32 (add32 (add32 (md5_F i B C D) A) (md5_K ! i)) (M ! md5_g i))
                         (md5_s ! i)), B, C)"

text \<open>Rounds \<open>0, \<dots>, n - 1\<close> in this order.\<close>

fun md5_rounds :: "nat list \<Rightarrow> nat \<Rightarrow> nat \<times> nat \<times> nat \<times> nat \<Rightarrow> nat \<times> nat \<times> nat \<times> nat" where
  "md5_rounds M 0 st = st"
| "md5_rounds M (Suc n) st = md5_round M (md5_rounds M n st) n"

definition md5_block :: "nat \<times> nat \<times> nat \<times> nat \<Rightarrow> byte list \<Rightarrow> nat \<times> nat \<times> nat \<times> nat" where
  "md5_block h blk =
     (case h of (a0, b0, c0, d0) \<Rightarrow>
        case md5_rounds (map le_word (chunks 4 blk)) 64 h of
          (A, B, C, D) \<Rightarrow> (add32 a0 A, add32 b0 B, add32 c0 C, add32 d0 D))"

definition md5 :: "byte list \<Rightarrow> byte list" where
  "md5 msg =
     (case foldl md5_block (0x67452301, 0xefcdab89, 0x98badcfe, 0x10325476)
               (chunks 64 (md5_pad msg)) of
        (a, b, c, d) \<Rightarrow> concat (map (le_bytes 4) [a, b, c, d]))"

definition hex_digit :: "nat \<Rightarrow> char" where
  "hex_digit n = ''0123456789abcdef'' ! n"

definition hexdigest :: "byte list \<Rightarrow> string" where
  "hexdigest bs = concat (map (\<lambda>b. [hex_digit (b div 16), hex_digit (b mod 16)]) bs)"

section \<open>Documents\<close>

text \<open>The dataclass \<^verbatim>\<open>DocumentTab\<close>. Time stamps are readings of a clock, a natural
  number.\<close>

record DocumentTab =
  name :: string
  content :: string
  file_path :: "string option"
  modified :: bool
  bookmarks :: "int list"
  data_type :: string
  data_raw :: "byte list"
  created_at :: nat
  modified_at :: nat
  tags :: "string list"
  language :: string
  encoding :: string
  line_endings :: string
  syntax_errors :: "string list"
  word_count :: nat
  char_count :: nat
  line_count :: nat
  is_binary :: bool
  checksum :: string
  version :: int

definition update_stats :: "nat \<Rightarrow> DocumentTab \<Rightarrow> DocumentTab" where
  "update_stats now d =
     d\<lparr>char_count := length (content d),
       word_count := length (split_ws (content d)),
       line_count := length (split_lines (content d)),
       checksum := hexdigest (md5 (encode (content d))),
       modified_at := now\<rparr>"

text \<open>The constructor with the three arguments the program passes,
  \<^verbatim>\<open>DocumentTab(name, content, file_path)\<close>, the defaults of the other fields, and
  \<^verbatim>\<open>__post_init__\<close>.\<close>

definition new_DocumentTab :: "nat \<Rightarrow> string \<Rightarrow> string \<Rightarrow> string option \<Rightarrow> DocumentTab" where
  "new_DocumentTab now nm txt path =
     update_stats now
       \<lparr>name = nm, content = txt, file_path = path, modified = False, bookmarks = [],
        data_type = ''raw'', data_raw = encode txt, created_at = now, modified_at = now,
        tags = [], language = ''text'', encoding = ''utf-8'', line_endings = [CHR 0x0A],
        syntax_errors = [], word_count = 0, char_count = 0, line_count = 0,
        is_binary = False, checksum = [], version = 1\<rparr>"

text \<open>Whether the checksum field is the hash of the content the document holds now.\<close>

definition checksum_current :: "DocumentTab \<Rightarrow> bool" where
  "checksum_current d \<longleftrightarrow> checksum d = hexdigest (md5 (encode (content d)))"

section \<open>The environment\<close>

text \<open>Exceptions that leave an operation of the store (all others are caught inside it).\<close>

datatype exn = IndexError | EOFError | PathError | ValueError | UnicodeEncodeError

text \<open>
  The file system: which paths exist, the text stored in the files that can be read, the
  paths that can be written (a text is stored as it is written, as on a system whose line
  separator is LF), and \<^verbatim>\<open>Path(filename).expanduser().resolve()\<close>, which is
  \<^term>\<open>None\<close> where it raises.
\<close>

record filesystem =
  file_exists :: "string \<Rightarrow> bool"
  contents :: "string \<rightharpoonup> string"
  writable :: "string \<Rightarrow> bool"
  resolve :: "string \<Rightarrow> string option"

text \<open>Reading a file as text turns the line ends CR LF and CR into LF.\<close>

fun universal_newlines :: "string \<Rightarrow> string" where
  "universal_newlines [] = []"
| "universal_newlines [c] = [if c = CHR 0x0D then CHR 0x0A else c]"
| "universal_newlines (c # d # r) =
     (if c = CHR 0x0D
      then CHR 0x0A # (if d = CHR 0x0A then universal_newlines r else universal_newlines (d # r))
      else c # universal_newlines (d # r))"

definition read_text :: "filesystem \<Rightarrow> string \<Rightarrow> string option" where
  "read_text fs p = map_option universal_newlines (contents fs p)"

definition write_text :: "filesystem \<Rightarrow> string \<Rightarrow> string \<Rightarrow> filesystem option" where
  "write_text fs p txt =
     (if writable fs p
      then Some (fs\<lparr>file_exists := (file_exists fs)(p := True), contents := (contents fs)(p \<mapsto> txt)\<rparr>)
      else None)"

text \<open>\<^verbatim>\<open>path.name\<close> of a resolved path: what follows the last slash.\<close>

definition path_name :: "string \<Rightarrow> string" where
  "path_name p = rev (takeWhile (\<lambda>c. c \<noteq> CHR ''/'') (rev p))"

text \<open>The table \<^verbatim>\<open>documents\<close> of the database, as the list of the snapshots written to
  it; \<^verbatim>\<open>save_document\<close> inserts one, or raises when the database is not available.\<close>

record database =
  rows :: "DocumentTab list"
  available :: bool

definition save_document :: "database \<Rightarrow> DocumentTab \<Rightarrow> database option" where
  "save_document db doc = (if available db then Some (db\<lparr>rows := rows db @ [doc]\<rparr>) else None)"

text \<open>\<^verbatim>\<open>str(n)\<close> for a natural number.\<close>

function show_nat :: "nat \<Rightarrow> string" where
  "show_nat n = (if n < 10 then [char_of (48 + n)] else show_nat (n div 10) @ [char_of (48 + n mod 10)])"
  by pat_completeness auto
termination
  by (relation "measure id") auto

declare show_nat.simps [simp del]

text \<open>\<^verbatim>\<open>int(s)\<close>: white space around the number is dropped (for \<^verbatim>\<open>int\<close> these are
  U+0009..U+000D, the space, U+0085 and U+00A0; U+001C..U+001F are not among them), one
  sign may lead, single underscores may separate digits, and more than 4300 digits are
  refused; \<^term>\<open>None\<close> is \<^verbatim>\<open>ValueError\<close>.\<close>

definition int_space :: "char \<Rightarrow> bool" where
  "int_space c \<longleftrightarrow> of_char c \<in> {9, 10, 11, 12, 13, 32, 133, 160 :: nat}"

definition is_digit :: "char \<Rightarrow> bool" where
  "is_digit c \<longleftrightarrow> 48 \<le> (of_char c :: nat) \<and> (of_char c :: nat) \<le> 57"

fun well_digits :: "string \<Rightarrow> bool" where
  "well_digits [] = False"
| "well_digits [c] = is_digit c"
| "well_digits (c # d # r) =
     (is_digit c \<and> (if d = CHR ''_'' then r \<noteq> [] \<and> well_digits r else well_digits (d # r)))"

definition int_of_str :: "string \<Rightarrow> int option" where
  "int_of_str s =
     (let t = rev (dropWhile int_space (rev (dropWhile int_space s)));
          neg = (t \<noteq> [] \<and> hd t = CHR ''-'');
          body = (if t \<noteq> [] \<and> (hd t = CHR ''-'' \<or> hd t = CHR ''+'') then tl t else t);
          ds = filter (\<lambda>c. c \<noteq> CHR ''_'') body
      in if well_digits body \<and> length ds \<le> 4300
         then Some ((if neg then - 1 else 1) * foldl (\<lambda>n c. 10 * n + (int (of_char c) - 48)) 0 ds)
         else None)"

section \<open>The document store\<close>

text \<open>The state of \<^verbatim>\<open>CopyAppTUI\<close> that the operations on documents read and write.\<close>

record CopyAppTUI =
  documents :: "DocumentTab list"
  current_doc_index :: int
  snippets :: "string list"

datatype message =
    FileNotFound string | Opened string nat | ErrorOpening
  | NoFilename | Saved string | ErrorSaving
  | EditCancelled | DocumentUpdated | NoChanges
  | Replaced nat string | NoMatches string
  | NoSnippets | SnippetInserted | InvalidSnippet
  | CreatedFromClipboard nat | ClipboardEmpty | PasteFailed
  | Fetched nat | FetchFailed
  | Created string
  | SwitchedTo string | InvalidNumberRange nat | InvalidNumber
  | CannotCloseLast | UnsavedChanges string | CloseCancelled | Closed string

text \<open>\<^verbatim>\<open>__init__\<close>: one empty document.\<close>

definition init :: "nat \<Rightarrow> string list \<Rightarrow> CopyAppTUI" where
  "init now snips =
     \<lparr>documents = [new_DocumentTab now ''Untitled'' [] None], current_doc_index = 0,
      snippets = snips\<rparr>"

definition get_current_document :: "CopyAppTUI \<Rightarrow> exn + DocumentTab" where
  "get_current_document a =
     (if 0 \<le> current_doc_index a \<and> current_doc_index a < int (length (documents a))
      then Inr (documents a ! nat (current_doc_index a))
      else if documents a = [] then Inl IndexError
      else Inr (documents a ! 0))"

text \<open>The position in the list of the object that \<^verbatim>\<open>get_current_document\<close> returns:
  an assignment to a field of that object changes the list there.\<close>

definition current_slot :: "CopyAppTUI \<Rightarrow> nat" where
  "current_slot a =
     (if 0 \<le> current_doc_index a \<and> current_doc_index a < int (length (documents a))
      then nat (current_doc_index a) else 0)"

definition set_current :: "CopyAppTUI \<Rightarrow> DocumentTab \<Rightarrow> CopyAppTUI" where
  "set_current a d = a\<lparr>documents := (documents a)[current_slot a := d]\<rparr>"

text \<open>\<^verbatim>\<open>self.documents.append(doc); self.current_doc_index = len(self.documents) - 1\<close>\<close>

definition append_document :: "CopyAppTUI \<Rightarrow> DocumentTab \<Rightarrow> CopyAppTUI" where
  "append_document a d =
     a\<lparr>documents := documents a @ [d], current_doc_index := int (length (documents a @ [d])) - 1\<rparr>"

definition open_file :: "nat \<Rightarrow> string \<Rightarrow> CopyAppTUI \<times> filesystem \<Rightarrow> CopyAppTUI \<times> message list" where
  "open_file now filename w =
     (case w of (a, fs) \<Rightarrow>
        case resolve fs filename of
          None \<Rightarrow> (a, [ErrorOpening])
        | Some path \<Rightarrow>
            if \<not> file_exists fs path then (a, [FileNotFound filename])
            else (case read_text fs path of
                    None \<Rightarrow> (a, [ErrorOpening])
                  | Some txt \<Rightarrow>
                      (append_document a (new_DocumentTab now (path_name path) txt (Some path)),
                       [Opened (path_name path) (length txt)])))"

text \<open>\<^verbatim>\<open>save_file(filename)\<close>; \<open>typed\<close> is the line read when the function asks for a
  file name (\<^term>\<open>None\<close> at the end of the input).\<close>

definition save_path :: "filesystem \<Rightarrow> string option \<Rightarrow> string option \<Rightarrow> DocumentTab \<Rightarrow> exn + string option" where
  "save_path fs filename typed doc =
     (if filename \<noteq> None \<and> filename \<noteq> Some []
      then (case resolve fs (the filename) of None \<Rightarrow> Inl PathError | Some p \<Rightarrow> Inr (Some p))
      else case file_path doc of
             Some p \<Rightarrow> Inr (Some p)
           | None \<Rightarrow>
               (case typed of
                  None \<Rightarrow> Inl EOFError
                | Some t \<Rightarrow>
                    if strip t = [] then Inr None
                    else (case resolve fs (strip t) of None \<Rightarrow> Inl PathError | Some p \<Rightarrow> Inr (Some p))))"

definition save_file :: "string option \<Rightarrow> string option \<Rightarrow> CopyAppTUI \<times> filesystem
    \<Rightarrow> exn + CopyAppTUI \<times> filesystem \<times> message list" where
  "save_file filename typed w =
     (case w of (a, fs) \<Rightarrow>
        case get_current_document a of
          Inl e \<Rightarrow> Inl e
        | Inr doc \<Rightarrow>
            (case save_path fs filename typed doc of
               Inl e \<Rightarrow> Inl e
             | Inr None \<Rightarrow> Inr (a, fs, [NoFilename])
             | Inr (Some path) \<Rightarrow>
                 (case write_text fs path (content doc) of
                    None \<Rightarrow> Inr (a, fs, [ErrorSaving])
                  | Some fs' \<Rightarrow>
                      Inr (set_current a
                             (doc\<lparr>file_path := Some path, name := path_name path, modified := False\<rparr>),
                           fs', [Saved path]))))"

text \<open>\<^verbatim>\<open>edit_document\<close>; \<open>typed\<close> are the lines read up to the end of the input
  (\<^term>\<open>None\<close> when the user interrupts).\<close>

definition edit_document :: "string list option \<Rightarrow> CopyAppTUI \<Rightarrow> exn + CopyAppTUI \<times> message list" where
  "edit_document typed a =
     (case get_current_document a of
        Inl e \<Rightarrow> Inl e
      | Inr doc \<Rightarrow>
          (case typed of
             None \<Rightarrow> Inr (a, [EditCancelled])
           | Some lines \<Rightarrow>
               let new_content = join_lines lines
               in if new_content \<noteq> content doc
                  then Inr (set_current a
                              (doc\<lparr>content := new_content, modified := True,
                                   data_raw := encode new_content\<rparr>),
                            [DocumentUpdated])
                  else Inr (a, [NoChanges])))"

definition replace_in_document :: "string \<Rightarrow> string \<Rightarrow> CopyAppTUI \<Rightarrow> exn + CopyAppTUI \<times> message list" where
  "replace_in_document find_text replace_text a =
     (case get_current_document a of
        Inl e \<Rightarrow> Inl e
      | Inr doc \<Rightarrow>
          let old_content = content doc;
              new_content = replace old_content find_text replace_text
          in if new_content \<noteq> old_content
             then Inr (set_current a
                         (doc\<lparr>content := new_content, modified := True,
                              data_raw := encode new_content\<rparr>),
                       [Replaced (count old_content find_text) find_text])
             else Inr (a, [NoMatches find_text]))"

text \<open>Choice 3 of \<^verbatim>\<open>manage_snippets\<close>; \<open>typed\<close> is the number read.\<close>

definition use_snippet :: "string \<Rightarrow> CopyAppTUI \<Rightarrow> exn + CopyAppTUI \<times> message list" where
  "use_snippet typed a =
     (if snippets a = [] then Inr (a, [NoSnippets])
      else case int_of_str typed of
             None \<Rightarrow> Inr (a, [])
           | Some n \<Rightarrow>
               let idx = n - 1
               in if 0 \<le> idx \<and> idx < int (length (snippets a))
                  then (case get_current_document a of
                          Inl e \<Rightarrow> Inl e
                        | Inr doc \<Rightarrow>
                            Inr (set_current a
                                   (doc\<lparr>content := content doc @ [CHR 0x0A] @ snippets a ! nat idx,
                                        modified := True\<rparr>),
                                 [SnippetInserted]))
                  else Inr (a, [InvalidSnippet]))"

text \<open>\<^verbatim>\<open>paste_from_clipboard\<close>; \<open>clip\<close> is the text of the clipboard, \<^term>\<open>None\<close> when
  reading it fails.\<close>

definition paste_from_clipboard :: "nat \<Rightarrow> string option \<Rightarrow> CopyAppTUI \<Rightarrow> CopyAppTUI \<times> message list" where
  "paste_from_clipboard now clip a =
     (case clip of
        None \<Rightarrow> (a, [PasteFailed])
      | Some txt \<Rightarrow>
          if txt \<noteq> []
          then (append_document a
                  (new_DocumentTab now (''Clipboard-'' @ show_nat (length (documents a) + 1)) txt None),
                [CreatedFromClipboard (length txt)])
          else (a, [ClipboardEmpty]))"

text \<open>\<^verbatim>\<open>fetch_url\<close>; \<open>fetched\<close> is the text made of the response, \<^term>\<open>None\<close> when
  the request or the conversion raises.\<close>

definition fetch_url :: "nat \<Rightarrow> string \<Rightarrow> string option \<Rightarrow> CopyAppTUI \<Rightarrow> CopyAppTUI \<times> message list" where
  "fetch_url now url fetched a =
     (let url' = (if startswith url ''http://'' \<or> startswith url ''https://'' then url
                  else ''https://'' @ url)
      in case fetched of
           None \<Rightarrow> (a, [FetchFailed])
         | Some txt \<Rightarrow>
             (append_document a
                ((new_DocumentTab now (''URL-'' @ last (split_on (\<lambda>c. c = CHR ''/'') url')) txt None)
                   \<lparr>data_type := ''html''\<rparr>),
              [Fetched (length txt)]))"

text \<open>The command \<^verbatim>\<open>new\<close> of the main loop.\<close>

definition new_document :: "nat \<Rightarrow> CopyAppTUI \<Rightarrow> CopyAppTUI \<times> message list" where
  "new_document now a =
     (let doc = new_DocumentTab now (''Untitled-'' @ show_nat (length (documents a) + 1)) [] None
      in (append_document a doc, [Created (name doc)]))"

definition switch_document :: "string \<Rightarrow> CopyAppTUI \<Rightarrow> CopyAppTUI \<times> message list" where
  "switch_document index a =
     (case int_of_str index of
        None \<Rightarrow> (a, [InvalidNumber])
      | Some n \<Rightarrow>
          let idx = n - 1
          in if 0 \<le> idx \<and> idx < int (length (documents a))
             then (a\<lparr>current_doc_index := idx\<rparr>, [SwitchedTo (name (documents a ! nat idx))])
             else (a, [InvalidNumberRange (length (documents a))]))"

text \<open>\<^verbatim>\<open>close_document(index)\<close>; \<open>response\<close> is the line read when the function asks
  whether to close a document with unsaved changes (\<^term>\<open>None\<close> at the end of the
  input).\<close>

definition close_target :: "string option \<Rightarrow> CopyAppTUI \<Rightarrow> int option" where
  "close_target index a =
     (case index of
        Some s \<Rightarrow> map_option (\<lambda>n. n - 1) (int_of_str s)
      | None \<Rightarrow> Some (current_doc_index a))"

definition close_document :: "string option \<Rightarrow> string option \<Rightarrow> CopyAppTUI \<Rightarrow> exn + CopyAppTUI \<times> message list" where
  "close_document index response a =
     (if length (documents a) \<le> 1 then Inr (a, [CannotCloseLast])
      else case close_target index a of
             None \<Rightarrow> Inr (a, [InvalidNumber])
           | Some idx \<Rightarrow>
               if 0 \<le> idx \<and> idx < int (length (documents a))
               then let doc = documents a ! nat idx
                    in if modified doc \<and> response = None then Inl EOFError
                       else if modified doc \<and> lower (the response) \<noteq> ''y''
                       then Inr (a, [UnsavedChanges (name doc), CloseCancelled])
                       else Inr (a\<lparr>documents := take (nat idx) (documents a) @ drop (Suc (nat idx)) (documents a),
                                   current_doc_index :=
                                     (if idx \<le> current_doc_index a then max 0 (current_doc_index a - 1)
                                      else current_doc_index a)\<rparr>,
                                 (if modified doc then [UnsavedChanges (name doc)] else []) @ [Closed (name doc)])
               else Inr (a, [InvalidNumberRange (length (documents a))]))"

text \<open>\<^verbatim>\<open>on_text_changed\<close> of the window; \<open>new_content\<close> is the text of the editor.\<close>

definition on_text_changed :: "string \<Rightarrow> CopyAppTUI \<Rightarrow> CopyAppTUI" where
  "on_text_changed new_content a =
     (if 0 \<le> current_doc_index a \<and> current_doc_index a < int (length (documents a))
      then let doc = documents a ! nat (current_doc_index a)
           in if new_content \<noteq> content doc
              then set_current a (doc\<lparr>content := new_content, modified := True,
                                      data_raw := encode new_content\<rparr>)
              else a
      else a)"

section \<open>The checkpointer\<close>

text \<open>
  One document of the loop of \<^verbatim>\<open>perform_auto_save\<close>: \<open>dir\<close> is
  \<^verbatim>\<open>AUTOSAVE_DIR\<close>, \<open>stamp\<close> the time stamp of the tick. The whole state goes through
  the loop. A failure of the write or of the database is swallowed.
\<close>

type_synonym world = "CopyAppTUI \<times> filesystem \<times> database"

definition auto_save_document :: "string \<Rightarrow> string \<Rightarrow> nat \<Rightarrow> world \<Rightarrow> world" where
  "auto_save_document dir stamp i w =
     (case w of (a, fs, db) \<Rightarrow>
        let doc = documents a ! i
        in if modified doc \<and> strip (content doc) \<noteq> []
           then let backup_file = dir @ ''/autosave_'' @ show_nat i @ ''_'' @ stamp @ ''.txt''
                in (case write_text fs backup_file (content doc) of
                      None \<Rightarrow> w
                    | Some fs' \<Rightarrow>
                        (case save_document db doc of
                           None \<Rightarrow> (a, fs', db)
                         | Some db' \<Rightarrow> (a, fs', db')))
           else w)"

text \<open>\<^verbatim>\<open>for i, doc in enumerate(self.documents)\<close>, from position \<open>i\<close> on.\<close>

function auto_save_from :: "string \<Rightarrow> string \<Rightarrow> nat \<Rightarrow> world \<Rightarrow> world" where
  "auto_save_from dir stamp i w =
     (if i < length (documents (fst w))
      then auto_save_from dir stamp (Suc i) (auto_save_document dir stamp i w)
      else w)"
  by pat_completeness auto

termination
proof (relation "measure (\<lambda>(dir, stamp, i, w). length (documents (fst w)) - i)")
  show "wf (measure (\<lambda>(dir, stamp, i, w). length (documents (fst w)) - i))"
    by simp
next
  fix dir stamp :: string and i :: nat and w :: world
  assume "i < length (documents (fst w))"
  moreover have "fst (auto_save_document dir stamp i w) = fst w"
    by (cases w rule: prod_cases3) (simp add: auto_save_document_def Let_def split: option.split)
  ultimately show "((dir, stamp, Suc i, auto_save_document dir stamp i w), (dir, stamp, i, w))
      \<in> measure (\<lambda>(dir, stamp, i, w). length (documents (fst w)) - i)"
    by simp
qed

declare auto_save_from.simps [simp del]

definition perform_auto_save :: "string \<Rightarrow> string \<Rightarrow> world \<Rightarrow> world" where
  "perform_auto_save dir stamp w = auto_save_from dir stamp 0 w"

section \<open>Commands\<close>

text \<open>
  The operations that change the store, each with what it reads from outside: the
  commands of the main loop (\<^verbatim>\<open>open\<close>, \<^verbatim>\<open>save\<close>, \<^verbatim>\<open>new\<close>, \<^verbatim>\<open>switch\<close>,
  \<^verbatim>\<open>close\<close>, \<^verbatim>\<open>edit\<close>, \<^verbatim>\<open>replace\<close>, \<^verbatim>\<open>snippets\<close>, \<^verbatim>\<open>paste\<close>, \<^verbatim>\<open>url\<close>), the
  editor of the window, and a tick of the checkpointer. The window's own
  \<^verbatim>\<open>new_document\<close>, \<^verbatim>\<open>paste_from_clipboard\<close> and \<^verbatim>\<open>switch_document\<close> change the store
  as \<open>New\<close>, \<open>Paste\<close> and \<open>Switch\<close> do.
\<close>

datatype command =
    Open nat string
  | Save "string option" "string option"
  | New nat
  | Switch string
  | Close "string option" "string option"
  | Edit "string list option"
  | Replace string string
  | Snippet string
  | Paste nat "string option"
  | Url nat string "string option"
  | TextChanged string
  | AutoSave string string

fun exec :: "command \<Rightarrow> world \<Rightarrow> exn + world \<times> message list" where
  "exec (Open now filename) (a, fs, db) =
     (case open_file now filename (a, fs) of (a', m) \<Rightarrow> Inr ((a', fs, db), m))"
| "exec (Save filename typed) (a, fs, db) =
     (case save_file filename typed (a, fs) of
        Inl e \<Rightarrow> Inl e
      | Inr (a', fs', m) \<Rightarrow> Inr ((a', fs', db), m))"
| "exec (New now) (a, fs, db) =
     (case new_document now a of (a', m) \<Rightarrow> Inr ((a', fs, db), m))"
| "exec (Switch index) (a, fs, db) =
     (case switch_document index a of (a', m) \<Rightarrow> Inr ((a', fs, db), m))"
| "exec (Close index response) (a, fs, db) =
     (case close_document index response a of
        Inl e \<Rightarrow> Inl e
      | Inr (a', m) \<Rightarrow> Inr ((a', fs, db), m))"
| "exec (Edit typed) (a, fs, db) =
     (case edit_document typed a of
        Inl e \<Rightarrow> Inl e
      | Inr (a', m) \<Rightarrow> Inr ((a', fs, db), m))"
| "exec (Replace find_text replace_text) (a, fs, db) =
     (case replace_in_document find_text replace_text a of
        Inl e \<Rightarrow> Inl e
      | Inr (a', m) \<Rightarrow> Inr ((a', fs, db), m))"
| "exec (Snippet typed) (a, fs, db) =
     (case use_snippet typed a of
        Inl e \<Rightarrow> Inl e
      | Inr (a', m) \<Rightarrow> Inr ((a', fs, db), m))"
| "exec (Paste now clip) (a, fs, db) =
     (case paste_from_clipboard now clip a of (a', m) \<Rightarrow> Inr ((a', fs, db), m))"
| "exec (Url now url fetched) (a, fs, db) =
     (case fetch_url now url fetched a of (a', m) \<Rightarrow> Inr ((a', fs, db), m))"
| "exec (TextChanged new_content) (a, fs, db) = Inr ((on_text_changed new_content a, fs, db), [])"
| "exec (AutoSave dir stamp) (a, fs, db) = Inr (perform_auto_save dir stamp (a, fs, db), [])"

text \<open>The states of a run: the store starts with one document, over any file system and
  database, and every command that returns leads to the next state. (A command that
  raises has changed nothing.)\<close>

inductive reachable :: "world \<Rightarrow> bool" where
  start: "reachable (init now snips, fs, db)"
| step: "reachable w \<Longrightarrow> exec c w = Inr (w', m) \<Longrightarrow> reachable w'"

fun is_save :: "command \<Rightarrow> bool" where
  "is_save (Save filename typed) = True"
| "is_save c = False"

fun is_edit :: "command \<Rightarrow> bool" where
  "is_edit (Edit typed) = True"
| "is_edit (Replace find_text replace_text) = True"
| "is_edit (Snippet typed) = True"
| "is_edit (TextChanged new_content) = True"
| "is_edit c = False"

text \<open>No flag is cleared from one list of documents to the next: a document was removed,
  or every document is where it was and is still modified if it was.\<close>

definition none_cleared :: "DocumentTab list \<Rightarrow> DocumentTab list \<Rightarrow> bool" where
  "none_cleared ds ds' \<longleftrightarrow>
     (\<exists>i < length ds. ds' = take i ds @ drop (Suc i) ds) \<or>
     (length ds \<le> length ds' \<and> (\<forall>i < length ds. modified (ds ! i) \<longrightarrow> modified (ds' ! i)))"

text \<open>A file system for the examples: no file exists, every path can be written, and a
  name resolves to itself below the root.\<close>

definition fs0 :: filesystem where
  "fs0 = \<lparr>file_exists = (\<lambda>p. False), contents = (\<lambda>p. None), writable = (\<lambda>p. True),
          resolve = (\<lambda>s. Some (CHR ''/'' # s))\<rparr>"

definition db0 :: database where
  "db0 = \<lparr>rows = [], available = True\<rparr>"

section \<open>The reversible transform\<close>






















text \<open>The state at the start, and a store whose one document holds a given text.\<close>

definition w0 :: world where
  "w0 = (init 0 [], fs0, db0)"

definition store_of :: "string \<Rightarrow> CopyAppTUI" where
  "store_of txt =
     \<lparr>documents = [new_DocumentTab 0 ''Untitled'' txt None], current_doc_index = 0, snippets = []\<rparr>"

text \<open>A store of two documents, the first with unsaved changes.\<close>

definition two_docs :: CopyAppTUI where
  "two_docs =
     \<lparr>documents = [(new_DocumentTab 0 ''Untitled'' ''a'' None)\<lparr>modified := True\<rparr>,
                   new_DocumentTab 0 ''Untitled-2'' [] None],
      current_doc_index = 0, snippets = []\<rparr>"

section \<open>The fetch coordinator\<close>

text \<open>
  \<^verbatim>\<open>NetworkManager.fetch_multiple_urls\<close>. What the network does is an argument:
  \<open>respond i\<close> is the outcome of the request for the \<open>i\<close>-th URL of the list, the
  message of the exception it raises (a timeout is one) or the bytes it reads, and
  \<open>order\<close> lists the requests as \<^verbatim>\<open>as_completed\<close> yields them. \<open>decode\<close> turns
  the bytes read into text (\<^verbatim>\<open>decode('utf-8')\<close>, with \<^verbatim>\<open>errors='replace'\<close> when that
  fails). \<^verbatim>\<open>ThreadPoolExecutor\<close> raises \<^verbatim>\<open>ValueError\<close> for a pool size that is not
  positive.
\<close>

definition fetch_single :: "(byte list \<Rightarrow> string) \<Rightarrow> string \<Rightarrow> string + byte list \<Rightarrow> string \<times> string" where
  "fetch_single decode url response =
     (case response of
        Inr body \<Rightarrow> (url, decode body)
      | Inl e \<Rightarrow> (url, ''Error: '' @ e))"

definition fetch_multiple_urls :: "(byte list \<Rightarrow> string) \<Rightarrow> (nat \<Rightarrow> string + byte list) \<Rightarrow> nat list
    \<Rightarrow> string list \<Rightarrow> int \<Rightarrow> exn + (string \<rightharpoonup> string)" where
  "fetch_multiple_urls decode respond order urls max_workers =
     (if max_workers \<le> 0 then Inl ValueError
      else Inr (fold (\<lambda>i results.
                        case fetch_single decode (urls ! i) (respond i) of
                          (url, fetched) \<Rightarrow> results(url \<mapsto> fetched))
                  order Map.empty))"

section \<open>The content analyzer\<close>

text \<open>
  \<^verbatim>\<open>TextProcessor.detect_language\<close>. The table is a list in the order of the dictionary
  of the source. The regular expressions are the strings of the source (\<open>BS\<close> is the
  backslash, \<open>DQ\<close> the double quote), and matching them is an argument:
  \<open>re_search pattern text\<close> is whether \<^verbatim>\<open>re.search(pattern, text, re.MULTILINE)\<close>
  finds a match.
\<close>

definition BS :: string where
  "BS = [CHR 0x5C]"

definition DQ :: string where
  "DQ = [CHR 0x22]"

definition patterns :: "(string \<times> string list) list" where
  "patterns =
     [(''python'', [''#!/usr/bin/env python'', ''import '' @ BS @ ''w+'',
                    ''def '' @ BS @ ''w+'' @ BS @ ''('', ''class '' @ BS @ ''w+:'']),
      (''javascript'', [''function '' @ BS @ ''w+'' @ BS @ ''('', ''const '' @ BS @ ''w+'', ''=> {'',
                        ''console'' @ BS @ ''.log'']),
      (''html'', [''<html>'', ''<div'', ''<script>'', ''<!DOCTYPE'']),
      (''css'', [BS @ ''w+'' @ BS @ ''s*{'', ''@media'', ''#'' @ BS @ ''w+'', BS @ ''.'' @ BS @ ''w+'']),
      (''markdown'', [''^#+'' @ BS @ ''s'', BS @ ''[.*'' @ BS @ '']'' @ BS @ ''(.*'' @ BS @ '')'',
                      ''^'' @ BS @ ''*'' @ BS @ ''s'', ''^-'' @ BS @ ''s'']),
      (''json'', [''^'' @ BS @ ''s*{'', DQ @ BS @ ''w+'' @ DQ @ BS @ ''s*:'', BS @ ''['' @ BS @ ''s*{'']),
      (''xml'', [''<'' @ BS @ ''?xml'', ''<'' @ BS @ ''w+[^>]*>'', ''</'' @ BS @ ''w+>'']),
      (''sql'', [''SELECT'' @ BS @ ''s+'', ''INSERT'' @ BS @ ''s+INTO'', ''UPDATE'' @ BS @ ''s+'',
                 ''CREATE'' @ BS @ ''s+TABLE'']),
      (''bash'', [''#!/bin/bash'', ''#!/bin/sh'', BS @ ''$'' @ BS @ ''w+'', ''if '' @ BS @ ''[''])]"

text \<open>The inner loop: one point for every regular expression of a language that matches.\<close>

definition score :: "(string \<Rightarrow> string \<Rightarrow> bool) \<Rightarrow> string list \<Rightarrow> string \<Rightarrow> nat" where
  "score re_search regexes content_lower = length (filter (\<lambda>pattern. re_search pattern content_lower) regexes)"

text \<open>\<^verbatim>\<open>max(items, key=...)\<close> keeps the first item and replaces it by a later one only when
  the later one is greater; \<^verbatim>\<open>max(values)\<close>.\<close>

fun max_by_snd :: "'a \<times> nat \<Rightarrow> ('a \<times> nat) list \<Rightarrow> 'a \<times> nat" where
  "max_by_snd best [] = best"
| "max_by_snd best (x # xs) = max_by_snd (if snd best < snd x then x else best) xs"

fun max_list :: "nat list \<Rightarrow> nat" where
  "max_list [] = 0"
| "max_list (x # xs) = max x (max_list xs)"

definition detect_language :: "(string \<Rightarrow> string \<Rightarrow> bool) \<Rightarrow> string \<Rightarrow> string" where
  "detect_language re_search txt =
     (let content_lower = lower txt;
          scores = map (\<lambda>(lang, regexes). (lang, score re_search regexes content_lower)) patterns
      in if max_list (map snd scores) > 0 then fst (max_by_snd (hd scores) (tl scores)) else ''text'')"

text \<open>A matcher for the examples: what \<^verbatim>\<open>re.search\<close> finds in the text \<^verbatim>\<open><div>\<close>, where
  one expression of \<^verbatim>\<open>html\<close> and one of \<^verbatim>\<open>xml\<close> match.\<close>

definition search_div :: "string \<Rightarrow> string \<Rightarrow> bool" where
  "search_div pattern text \<longleftrightarrow>
     text = ''<div>'' \<and> (pattern = ''<div'' \<or> pattern = ''<'' @ BS @ ''w+[^>]*>'')"

section \<open>Lemmas\<close>

lemma replicate_numeral_Cons: "replicate (numeral k) x = x # replicate (pred_numeral k) x"
  by (simp add: numeral_eq_Suc)

lemma le_bytes_numeral: "le_bytes (numeral k) n = n mod 256 # le_bytes (pred_numeral k) (n div 256)"
  using le_bytes.simps(2)[of "pred_numeral k" n] by (simp only: numeral_eq_Suc[symmetric])

lemma md5_rounds_numeral:
  "md5_rounds M (numeral k) st = md5_round M (md5_rounds M (pred_numeral k) st) (pred_numeral k)"
  by (simp add: numeral_eq_Suc)

lemmas md5_eval = md5_def md5_pad_def replicate_numeral_Cons le_bytes_numeral chunks.simps
  md5_block_def md5_rounds_numeral md5_F_def md5_g_def md5_K_def md5_s_def rotl32_def add32_def
  not32_def hexdigest_def hex_digit_def

lemma md5_empty: "hexdigest (md5 (encode [])) = ''d41d8cd98f00b204e9800998ecf8427e''"
  by (simp add: encode_def md5_eval)

lemma md5_a: "hexdigest (md5 (encode ''a'')) = ''0cc175b9c0f1b6a831c399e269772661''"
  by (simp add: encode_def encode_char_def md5_eval)

lemma md5_e_acute: "hexdigest (md5 (encode [CHR 0xE9])) = ''66ddcd97cfdeabb2f6fb8a999b4bc76f''"
  by (simp add: encode_def encode_char_def md5_eval)

subsection \<open>The checkpointer\<close>

lemma auto_save_document_store: "fst (auto_save_document dir stamp i w) = fst w"
  by (cases w rule: prod_cases3) (simp add: auto_save_document_def Let_def split: option.split)

lemma auto_save_from_store: "fst (auto_save_from dir stamp i w) = fst w"
proof (induction dir stamp i w rule: auto_save_from.induct)
  case (1 dir stamp i w)
  show ?case
  proof (cases "i < length (documents (fst w))")
    case True
    with "1" show ?thesis
      by (simp add: auto_save_from.simps[of dir stamp i w] auto_save_document_store)
  next
    case False
    then show ?thesis by (simp add: auto_save_from.simps[of dir stamp i w])
  qed
qed

text \<open>
  C4. A tick of the checkpointer leaves the modified flag of every document as it was:
  the store is the same after the tick, whatever the tick wrote.
\<close>

theorem checkpoint_keeps_modified:
  "map modified (documents (fst (perform_auto_save dir stamp w))) = map modified (documents (fst w))
   \<and> fst (perform_auto_save dir stamp w) = fst w"
  by (simp add: perform_auto_save_def auto_save_from_store)

subsection \<open>Replacing and counting\<close>

lemma startswith_prefix: "startswith s old \<longleftrightarrow> prefix old s"
proof
  assume "startswith s old"
  then have "take (length old) s = old" by (simp add: startswith_def)
  then show "prefix old s" by (metis take_is_prefix)
next
  assume "prefix old s"
  then obtain r where "s = old @ r" by (auto simp add: prefix_def)
  then show "startswith s old" by (simp add: startswith_def)
qed

lemma startswith_split: "startswith s old \<Longrightarrow> s = old @ drop (length old) s"
  unfolding startswith_def by (metis append_take_drop_id)

lemma replace_from_empty: "old = [] \<or> s = [] \<Longrightarrow> replace_from old repl s = s"
  by (subst replace_from.simps) simp

lemma replace_from_match:
  "old \<noteq> [] \<Longrightarrow> s \<noteq> [] \<Longrightarrow> startswith s old \<Longrightarrow>
   replace_from old repl s = repl @ replace_from old repl (drop (length old) s)"
  by (subst replace_from.simps) simp

lemma replace_from_skip:
  "old \<noteq> [] \<Longrightarrow> \<not> startswith (x # t) old \<Longrightarrow>
   replace_from old repl (x # t) = x # replace_from old repl t"
  by (subst replace_from.simps) simp

lemma count_from_empty: "old = [] \<or> s = [] \<Longrightarrow> count_from old s = 0"
  by (subst count_from.simps) simp

lemma count_from_match:
  "old \<noteq> [] \<Longrightarrow> s \<noteq> [] \<Longrightarrow> startswith s old \<Longrightarrow>
   count_from old s = Suc (count_from old (drop (length old) s))"
  by (subst count_from.simps) simp

lemma count_from_skip:
  "old \<noteq> [] \<Longrightarrow> \<not> startswith (x # t) old \<Longrightarrow> count_from old (x # t) = count_from old t"
  by (subst count_from.simps) simp

lemma absent_tail: "\<not> sublist old (x # t) \<Longrightarrow> \<not> startswith (x # t) old \<and> \<not> sublist old t"
  by (simp add: sublist_Cons_right startswith_prefix)

lemma replace_from_absent: "\<not> sublist old s \<Longrightarrow> replace_from old repl s = s"
proof (induction s)
  case Nil
  then show ?case by (simp add: replace_from_empty)
next
  case (Cons x t)
  show ?case
  proof (cases "old = []")
    case True
    then show ?thesis by (simp add: replace_from_empty)
  next
    case False
    from Cons.prems have "\<not> startswith (x # t) old" and "\<not> sublist old t"
      using absent_tail by blast+
    with Cons.IH False show ?thesis by (simp add: replace_from_skip)
  qed
qed

lemma count_from_absent: "\<not> sublist old s \<Longrightarrow> count_from old s = 0"
proof (induction s)
  case Nil
  then show ?case by (simp add: count_from_empty)
next
  case (Cons x t)
  show ?case
  proof (cases "old = []")
    case True
    then show ?thesis by (simp add: count_from_empty)
  next
    case False
    from Cons.prems have "\<not> startswith (x # t) old" and "\<not> sublist old t"
      using absent_tail by blast+
    with Cons.IH False show ?thesis by (simp add: count_from_skip)
  qed
qed

lemma startswith_obtain:
  assumes "startswith s old"
  obtains t where "s = old @ t" and "drop (length old) s = t"
  using assms startswith_split by (metis append_eq_conv_conj)

lemma replace_from_append:
  "old \<noteq> [] \<Longrightarrow> replace_from old repl (old @ t) = repl @ replace_from old repl t"
  by (subst replace_from.simps) (simp add: startswith_def)

lemma count_from_append:
  "old \<noteq> [] \<Longrightarrow> count_from old (old @ t) = Suc (count_from old t)"
  by (subst count_from.simps) (simp add: startswith_def)

lemma replace_from_same: "repl = old \<Longrightarrow> replace_from old repl s = s"
proof (induction old repl s rule: replace_from.induct)
  case (1 old repl s)
  show ?case
  proof (cases "old = [] \<or> s = []")
    case True
    then show ?thesis by (rule replace_from_empty)
  next
    case False
    show ?thesis
    proof (cases "startswith s old")
      case True
      then obtain t where s: "s = old @ t" and dt: "drop (length old) s = t"
        by (rule startswith_obtain)
      have "replace_from old repl (drop (length old) s) = drop (length old) s"
        using "1.IH"(1)[OF False True "1.prems"] .
      then have "replace_from old repl t = t"
        unfolding dt .
      with False "1.prems" show ?thesis
        unfolding s by (simp add: replace_from_append)
    next
      case ns: False
      from False obtain x t where s: "s = x # t" by (cases s) auto
      have "replace_from old repl (tl s) = tl s"
        using "1.IH"(2)[OF False ns "1.prems"] .
      then have "replace_from old repl t = t"
        unfolding s by simp
      with False ns show ?thesis
        unfolding s by (simp add: replace_from_skip)
    qed
  qed
qed

lemma replace_from_length:
  "int (length (replace_from old repl s)) =
     int (length s) + int (count_from old s) * (int (length repl) - int (length old))"
proof (induction old repl s rule: replace_from.induct)
  case (1 old repl s)
  show ?case
  proof (cases "old = [] \<or> s = []")
    case True
    then show ?thesis
      by (simp add: replace_from_empty count_from_empty)
  next
    case False
    show ?thesis
    proof (cases "startswith s old")
      case True
      then obtain t where s: "s = old @ t" and dt: "drop (length old) s = t"
        by (rule startswith_obtain)
      have "int (length (replace_from old repl (drop (length old) s))) =
              int (length (drop (length old) s)) +
              int (count_from old (drop (length old) s)) * (int (length repl) - int (length old))"
        using "1.IH"(1)[OF False True] .
      then have "int (length (replace_from old repl t)) =
              int (length t) + int (count_from old t) * (int (length repl) - int (length old))"
        unfolding dt .
      with False show ?thesis
        unfolding s by (simp add: replace_from_append count_from_append algebra_simps)
    next
      case ns: False
      from False obtain x t where s: "s = x # t" by (cases s) auto
      have "int (length (replace_from old repl (tl s))) =
              int (length (tl s)) + int (count_from old (tl s)) * (int (length repl) - int (length old))"
        using "1.IH"(2)[OF False ns] .
      then have "int (length (replace_from old repl t)) =
              int (length t) + int (count_from old t) * (int (length repl) - int (length old))"
        unfolding s by simp
      with False ns show ?thesis
        unfolding s by (simp add: replace_from_skip count_from_skip)
    qed
  qed
qed

lemma replace_from_changes:
  "old \<noteq> [] \<Longrightarrow> sublist old s \<Longrightarrow> repl \<noteq> old \<Longrightarrow> replace_from old repl s \<noteq> s"
proof (induction s)
  case Nil
  then show ?case by simp
next
  case (Cons x t)
  show ?case
  proof (cases "startswith (x # t) old")
    case True
    then obtain u where s: "x # t = old @ u"
      by (rule startswith_obtain)
    define X where "X = replace_from old repl u"
    have r: "replace_from old repl (x # t) = repl @ X"
      unfolding s X_def using Cons.prems(1) by (rule replace_from_append)
    show ?thesis
    proof
      assume "replace_from old repl (x # t) = x # t"
      with r s have e: "repl @ X = old @ u" by simp
      then have "length (repl @ X) = length (old @ u)" by simp
      then have "int (length repl) + int (length X) = int (length old) + int (length u)"
        by simp
      moreover have "int (length X) =
              int (length u) + int (count_from old u) * (int (length repl) - int (length old))"
        unfolding X_def by (rule replace_from_length)
      ultimately have "(1 + int (count_from old u)) * (int (length repl) - int (length old)) = 0"
        by (simp add: algebra_simps)
      moreover have "1 + int (count_from old u) \<noteq> 0" by linarith
      ultimately have "int (length repl) - int (length old) = 0"
        by (simp only: mult_eq_0_iff) simp
      then have "length repl = length old" by simp
      with e have "repl = old" by simp
      with Cons.prems(3) show False by simp
    qed
  next
    case False
    with Cons.prems(2) have "sublist old t"
      by (simp add: sublist_Cons_right startswith_prefix)
    with Cons.IH Cons.prems have "replace_from old repl t \<noteq> t" by simp
    with Cons.prems(1) False show ?thesis by (simp add: replace_from_skip)
  qed
qed

lemma interleave_length: "length s \<le> length (concat (map (\<lambda>c. c # repl) s))"
  by (induction s) auto

lemma replace_empty_unchanged: "(repl @ concat (map (\<lambda>c. c # repl) s) = s) = (repl = [])"
proof
  assume "repl @ concat (map (\<lambda>c. c # repl) s) = s"
  then have "length (repl @ concat (map (\<lambda>c. c # repl) s)) = length s" by simp
  then have "length repl + length (concat (map (\<lambda>c. c # repl) s)) = length s" by simp
  with interleave_length[of s repl] have "length repl = 0" by arith
  then show "repl = []" by simp
next
  assume "repl = []"
  then show "repl @ concat (map (\<lambda>c. c # repl) s) = s"
    by (induction s) auto
qed

lemma replace_unchanged_iff: "(replace s old repl = s) = (\<not> sublist old s \<or> repl = old)"
proof (cases "old = []")
  case True
  then show ?thesis
    by (auto simp add: replace_def replace_empty_unchanged)
next
  case False
  show ?thesis
  proof
    assume eq: "replace s old repl = s"
    show "\<not> sublist old s \<or> repl = old"
    proof (rule ccontr)
      assume "\<not> (\<not> sublist old s \<or> repl = old)"
      then have "replace_from old repl s \<noteq> s"
        using False replace_from_changes by blast
      with eq False show False by (simp add: replace_def)
    qed
  next
    assume "\<not> sublist old s \<or> repl = old"
    then have "replace_from old repl s = s"
      using replace_from_absent replace_from_same by blast
    with False show "replace s old repl = s" by (simp add: replace_def)
  qed
qed

lemma count_absent: "\<not> sublist old s \<Longrightarrow> count s old = 0"
  using count_from_absent by (auto simp add: count_def)

subsection \<open>How the commands change the list of documents\<close>

lemma current_doc:
  "get_current_document a = Inr doc \<Longrightarrow>
   current_slot a < length (documents a) \<and> doc = documents a ! current_slot a"
  by (auto simp add: get_current_document_def current_slot_def split: if_splits)

lemma documents_set_current [simp]:
  "documents (set_current a d) = (documents a)[current_slot a := d]"
  by (simp add: set_current_def)

lemma documents_append_document [simp]: "documents (append_document a d) = documents a @ [d]"
  by (simp add: append_document_def)

lemma open_file_docs:
  "open_file now filename (a, fs) = (a', m) \<Longrightarrow>
   documents a' = documents a \<or> (\<exists>n t p. documents a' = documents a @ [new_DocumentTab now n t p])"
  by (fastforce simp add: open_file_def split: option.splits if_splits)

lemma save_file_docs:
  assumes "save_file filename typed (a, fs) = Inr (a', fs', m)"
  shows "documents a' = documents a \<or>
         (\<exists>i < length (documents a). \<exists>p n. documents a' =
            (documents a)[i := (documents a ! i)\<lparr>file_path := Some p, name := n, modified := False\<rparr>])"
proof (cases "get_current_document a")
  case (Inl e)
  with assms show ?thesis by (simp add: save_file_def)
next
  case (Inr doc)
  then have slot: "current_slot a < length (documents a)" and doc: "doc = documents a ! current_slot a"
    using current_doc by blast+
  from assms Inr show ?thesis
    unfolding doc
    by (fastforce simp add: save_file_def split: sum.splits option.splits intro: exI[of _ "current_slot a"] slot)
qed

lemma edit_document_docs:
  assumes "edit_document typed a = Inr (a', m)"
  shows "documents a' = documents a \<or>
         (\<exists>i < length (documents a). \<exists>c r. documents a' =
            (documents a)[i := (documents a ! i)\<lparr>content := c, modified := True, data_raw := r\<rparr>])"
proof (cases "get_current_document a")
  case (Inl e)
  with assms show ?thesis by (simp add: edit_document_def)
next
  case (Inr doc)
  then have slot: "current_slot a < length (documents a)" and doc: "doc = documents a ! current_slot a"
    using current_doc by blast+
  from assms Inr slot show ?thesis
    unfolding doc
    by (fastforce simp add: edit_document_def Let_def split: option.splits if_splits)
qed

lemma replace_in_document_docs:
  assumes "replace_in_document find_text replace_text a = Inr (a', m)"
  shows "documents a' = documents a \<or>
         (\<exists>i < length (documents a). \<exists>c r. documents a' =
            (documents a)[i := (documents a ! i)\<lparr>content := c, modified := True, data_raw := r\<rparr>])"
proof (cases "get_current_document a")
  case (Inl e)
  with assms show ?thesis by (simp add: replace_in_document_def)
next
  case (Inr doc)
  then have slot: "current_slot a < length (documents a)" and doc: "doc = documents a ! current_slot a"
    using current_doc by blast+
  from assms Inr slot show ?thesis
    unfolding doc
    by (fastforce simp add: replace_in_document_def Let_def split: if_splits)
qed

lemma use_snippet_docs:
  assumes "use_snippet typed a = Inr (a', m)"
  shows "documents a' = documents a \<or>
         (\<exists>i < length (documents a). \<exists>c. documents a' =
            (documents a)[i := (documents a ! i)\<lparr>content := c, modified := True\<rparr>])"
proof (cases "get_current_document a")
  case (Inl e)
  with assms show ?thesis
    by (fastforce simp add: use_snippet_def Let_def split: option.splits if_splits)
next
  case (Inr doc)
  then have slot: "current_slot a < length (documents a)" and doc: "doc = documents a ! current_slot a"
    using current_doc by blast+
  from assms Inr slot show ?thesis
    unfolding doc
    by (fastforce simp add: use_snippet_def Let_def split: option.splits if_splits)
qed

lemma on_text_changed_docs:
  "documents (on_text_changed new_content a) = documents a \<or>
   (\<exists>i < length (documents a). \<exists>c r. documents (on_text_changed new_content a) =
      (documents a)[i := (documents a ! i)\<lparr>content := c, modified := True, data_raw := r\<rparr>])"
proof (cases "0 \<le> current_doc_index a \<and> current_doc_index a < int (length (documents a))")
  case True
  then have cs: "current_slot a = nat (current_doc_index a)"
    by (simp add: current_slot_def)
  from True have "nat (current_doc_index a) < length (documents a)"
    by linarith
  with True cs show ?thesis
    by (fastforce simp add: on_text_changed_def Let_def)
next
  case False
  then have "on_text_changed new_content a = a"
    unfolding on_text_changed_def by (simp only: if_False)
  then show ?thesis by simp
qed

lemma paste_from_clipboard_docs:
  "paste_from_clipboard now clip a = (a', m) \<Longrightarrow>
   documents a' = documents a \<or> (\<exists>n t p. documents a' = documents a @ [new_DocumentTab now n t p])"
  by (fastforce simp add: paste_from_clipboard_def split: option.splits if_splits)

lemma fetch_url_docs:
  "fetch_url now url fetched a = (a', m) \<Longrightarrow>
   documents a' = documents a \<or>
   (\<exists>n t p. documents a' = documents a @ [(new_DocumentTab now n t p)\<lparr>data_type := ''html''\<rparr>])"
  by (fastforce simp add: fetch_url_def Let_def split: option.splits)

lemma new_document_docs:
  "new_document now a = (a', m) \<Longrightarrow> \<exists>n t p. documents a' = documents a @ [new_DocumentTab now n t p]"
  by (fastforce simp add: new_document_def Let_def)

lemma switch_document_docs: "switch_document index a = (a', m) \<Longrightarrow> documents a' = documents a"
  by (fastforce simp add: switch_document_def Let_def split: option.splits if_splits)

lemma close_document_docs:
  assumes "close_document index response a = Inr (a', m)"
  shows "documents a' = documents a \<or>
         (1 < length (documents a) \<and>
          (\<exists>i < length (documents a). documents a' = take i (documents a) @ drop (Suc i) (documents a)))"
proof (cases "length (documents a) \<le> 1")
  case True
  with assms show ?thesis by (simp add: close_document_def)
next
  case False
  have "\<And>idx. 0 \<le> idx \<Longrightarrow> idx < int (length (documents a)) \<Longrightarrow> nat idx < length (documents a)"
    by simp
  with assms False show ?thesis
    by (fastforce simp add: close_document_def Let_def split: option.splits if_splits)
qed

lemma perform_auto_save_docs: "documents (fst (perform_auto_save dir stamp w)) = documents (fst w)"
  by (simp add: perform_auto_save_def auto_save_from_store)

text \<open>The seven ways in which a command changes the list of documents.\<close>

lemma exec_documents:
  assumes "exec c w = Inr (w', m)"
  shows "documents (fst w') = documents (fst w)
     \<or> (\<exists>now n t p. documents (fst w') = documents (fst w) @ [new_DocumentTab now n t p])
     \<or> (\<exists>now n t p. documents (fst w') =
           documents (fst w) @ [(new_DocumentTab now n t p)\<lparr>data_type := ''html''\<rparr>])
     \<or> (1 < length (documents (fst w)) \<and> (\<exists>i < length (documents (fst w)).
           documents (fst w') = take i (documents (fst w)) @ drop (Suc i) (documents (fst w))))
     \<or> (\<exists>i < length (documents (fst w)). \<exists>c r. documents (fst w') =
           (documents (fst w))[i := (documents (fst w) ! i)\<lparr>content := c, modified := True, data_raw := r\<rparr>])
     \<or> (\<exists>i < length (documents (fst w)). \<exists>c. documents (fst w') =
           (documents (fst w))[i := (documents (fst w) ! i)\<lparr>content := c, modified := True\<rparr>])
     \<or> (is_save c \<and> (\<exists>i < length (documents (fst w)). \<exists>p n. documents (fst w') =
           (documents (fst w))[i := (documents (fst w) ! i)\<lparr>file_path := Some p, name := n, modified := False\<rparr>]))"
proof -
  obtain a fs db where w: "w = (a, fs, db)" by (cases w rule: prod_cases3)
  obtain a' fs' db' where w': "w' = (a', fs', db')" by (cases w' rule: prod_cases3)
  show ?thesis
  proof (cases c)
    case (Open now filename)
    with assms w w' have "open_file now filename (a, fs) = (a', m)"
      by (auto split: prod.splits)
    from open_file_docs[OF this] show ?thesis unfolding w w' fst_conv by blast
  next
    case (Save filename typed)
    with assms w w' obtain fs2 where "save_file filename typed (a, fs) = Inr (a', fs2, m)"
      by (auto split: sum.splits prod.splits)
    from save_file_docs[OF this] Save show ?thesis unfolding w w' fst_conv by (simp del: ex_simps) blast
  next
    case (New now)
    with assms w w' have "new_document now a = (a', m)"
      by (auto split: prod.splits)
    from new_document_docs[OF this] show ?thesis unfolding w w' fst_conv by blast
  next
    case (Switch index)
    with assms w w' have "switch_document index a = (a', m)"
      by (auto split: prod.splits)
    from switch_document_docs[OF this] show ?thesis unfolding w w' fst_conv by blast
  next
    case (Close index response)
    with assms w w' have "close_document index response a = Inr (a', m)"
      by (auto split: sum.splits prod.splits)
    from close_document_docs[OF this] show ?thesis unfolding w w' fst_conv by blast
  next
    case (Edit typed)
    with assms w w' have "edit_document typed a = Inr (a', m)"
      by (auto split: sum.splits prod.splits)
    from edit_document_docs[OF this] show ?thesis unfolding w w' fst_conv by blast
  next
    case (Replace find_text replace_text)
    with assms w w' have "replace_in_document find_text replace_text a = Inr (a', m)"
      by (auto split: sum.splits prod.splits)
    from replace_in_document_docs[OF this] show ?thesis unfolding w w' fst_conv by blast
  next
    case (Snippet typed)
    with assms w w' have "use_snippet typed a = Inr (a', m)"
      by (auto split: sum.splits prod.splits)
    from use_snippet_docs[OF this] show ?thesis unfolding w w' fst_conv by blast
  next
    case (Paste now clip)
    with assms w w' have "paste_from_clipboard now clip a = (a', m)"
      by (auto split: prod.splits)
    from paste_from_clipboard_docs[OF this] show ?thesis unfolding w w' fst_conv by blast
  next
    case (Url now url fetched)
    with assms w w' have "fetch_url now url fetched a = (a', m)"
      by (auto split: prod.splits)
    from fetch_url_docs[OF this] show ?thesis unfolding w w' fst_conv by blast
  next
    case (TextChanged new_content)
    with assms w w' have "a' = on_text_changed new_content a" by auto
    with on_text_changed_docs[of new_content a] show ?thesis unfolding w w' fst_conv by blast
  next
    case (AutoSave dir stamp)
    with assms w w' have "fst w' = fst (perform_auto_save dir stamp w)" by auto
    with perform_auto_save_docs[of dir stamp w] show ?thesis by simp
  qed
qed

subsection \<open>Invariants of the store\<close>

lemma new_DocumentTab_fields [simp]:
  "version (new_DocumentTab now nm txt path) = 1"
  "modified (new_DocumentTab now nm txt path) = False"
  "content (new_DocumentTab now nm txt path) = txt"
  "name (new_DocumentTab now nm txt path) = nm"
  "file_path (new_DocumentTab now nm txt path) = path"
  "checksum (new_DocumentTab now nm txt path) = hexdigest (md5 (encode txt))"
  by (simp_all add: new_DocumentTab_def update_stats_def)

lemma in_set_update: "d \<in> set (xs[i := y]) \<Longrightarrow> d = y \<or> d \<in> set xs"
  using set_update_subset_insert[of xs i y] by auto

lemma in_set_removed: "d \<in> set (take i xs @ drop (Suc i) xs) \<Longrightarrow> d \<in> set xs"
  by (auto dest: in_set_takeD in_set_dropD)

lemma exec_versions:
  assumes "exec c w = Inr (w', m)" and "\<forall>d \<in> set (documents (fst w)). version d = 1"
  shows "\<forall>d \<in> set (documents (fst w')). version d = 1"
proof
  fix d assume d: "d \<in> set (documents (fst w'))"
  from exec_documents[OF assms(1)] show "version d = 1"
  proof (elim disjE exE conjE)
    assume "documents (fst w') = documents (fst w)"
    with d assms(2) show ?thesis by simp
  next
    fix now n t p assume "documents (fst w') = documents (fst w) @ [new_DocumentTab now n t p]"
    with d assms(2) show ?thesis by auto
  next
    fix now n t p
    assume "documents (fst w') = documents (fst w) @ [(new_DocumentTab now n t p)\<lparr>data_type := ''html''\<rparr>]"
    with d assms(2) show ?thesis by auto
  next
    fix i assume "documents (fst w') = take i (documents (fst w)) @ drop (Suc i) (documents (fst w))"
    with d have "d \<in> set (documents (fst w))" using in_set_removed by metis
    with assms(2) show ?thesis by simp
  next
    fix i c r assume i: "i < length (documents (fst w))"
      and "documents (fst w') =
        (documents (fst w))[i := (documents (fst w) ! i)\<lparr>content := c, modified := True, data_raw := r\<rparr>]"
    with d have "d = (documents (fst w) ! i)\<lparr>content := c, modified := True, data_raw := r\<rparr>
        \<or> d \<in> set (documents (fst w))"
      using in_set_update by metis
    with assms(2) i show ?thesis by auto
  next
    fix i c assume i: "i < length (documents (fst w))"
      and "documents (fst w') = (documents (fst w))[i := (documents (fst w) ! i)\<lparr>content := c, modified := True\<rparr>]"
    with d have "d = (documents (fst w) ! i)\<lparr>content := c, modified := True\<rparr>
        \<or> d \<in> set (documents (fst w))"
      using in_set_update by metis
    with assms(2) i show ?thesis by auto
  next
    fix i p n assume i: "i < length (documents (fst w))"
      and "documents (fst w') =
        (documents (fst w))[i := (documents (fst w) ! i)\<lparr>file_path := Some p, name := n, modified := False\<rparr>]"
    with d have "d = (documents (fst w) ! i)\<lparr>file_path := Some p, name := n, modified := False\<rparr>
        \<or> d \<in> set (documents (fst w))"
      using in_set_update by metis
    with assms(2) i show ?thesis by auto
  qed
qed

lemma exec_nonempty:
  assumes "exec c w = Inr (w', m)" and "documents (fst w) \<noteq> []"
  shows "documents (fst w') \<noteq> []"
proof -
  from exec_documents[OF assms(1)] show ?thesis
  proof (elim disjE exE conjE)
    fix i assume "1 < length (documents (fst w))" and "i < length (documents (fst w))"
      and eq: "documents (fst w') = take i (documents (fst w)) @ drop (Suc i) (documents (fst w))"
    then have "length (documents (fst w')) = length (documents (fst w)) - 1"
      by (simp add: eq)
    with \<open>1 < length (documents (fst w))\<close> show ?thesis by auto
  qed (use assms(2) in auto)
qed

lemma exec_none_cleared:
  assumes "exec c w = Inr (w', m)" and "\<not> is_save c"
  shows "none_cleared (documents (fst w)) (documents (fst w'))"
proof -
  from exec_documents[OF assms(1)] assms(2) show ?thesis
  proof (elim disjE exE conjE)
    fix i assume "i < length (documents (fst w))"
      and "documents (fst w') = take i (documents (fst w)) @ drop (Suc i) (documents (fst w))"
    then show ?thesis unfolding none_cleared_def by blast
  qed (auto simp add: none_cleared_def nth_append nth_list_update)
qed

lemma get_current_document_total:
  "documents a \<noteq> [] \<Longrightarrow> get_current_document a = Inr (documents a ! current_slot a)"
  by (simp add: get_current_document_def current_slot_def)

text \<open>
  C3, as the code has it. The version counter of a document is never changed, neither by
  an edit in memory nor by a successful save: it is 1 for every document of every state
  of a run, and stays 1 through every command.
\<close>

theorem version_never_changes:
  assumes "reachable w"
  shows "(\<forall>d \<in> set (documents (fst w)). version d = 1) \<and>
         (\<forall>c w' m. exec c w = Inr (w', m) \<longrightarrow> (\<forall>d \<in> set (documents (fst w')). version d = 1))"
proof -
  from assms have inv: "\<forall>d \<in> set (documents (fst w)). version d = 1"
  proof (induction rule: reachable.induct)
    case (start now snips fs db)
    show ?case by (simp add: init_def)
  next
    case (step w c w' m)
    then show ?case using exec_versions by blast
  qed
  then show ?thesis using exec_versions by blast
qed

theorem version_never_changes_witness:
  "reachable w0 \<and> map version (documents (fst w0)) = [1]"
  using version_never_changes[of w0] reachable.start[of 0 "[]" fs0 db0]
  by (simp add: w0_def init_def)

text \<open>
  C3 as the claim states it fails: saving the first document to a writable path succeeds,
  and the version is 1 afterwards as it was before.
\<close>

theorem save_keeps_version_counterexample:
  "map version (documents (init 0 [])) = [1] \<and>
   map_sum id (\<lambda>(a, fs, m). (m, map version (documents a)))
     (save_file (Some ''notes.txt'') None (init 0 [], fs0)) = Inr ([Saved ''/notes.txt''], [1])"
  by (simp add: save_file_def save_path_def get_current_document_def current_slot_def init_def
      fs0_def write_text_def)

text \<open>
  C10. The list of documents is not empty in any state of a run, so that getting the
  current document returns a document there; and where the list is not empty and the
  index is outside of it, the first document is returned.
\<close>

theorem store_never_empty:
  assumes "reachable w"
  shows "documents (fst w) \<noteq> [] \<and> (\<exists>doc. get_current_document (fst w) = Inr doc) \<and>
         (\<forall>a. documents a \<noteq> [] \<and>
               \<not> (0 \<le> current_doc_index a \<and> current_doc_index a < int (length (documents a)))
               \<longrightarrow> get_current_document a = Inr (documents a ! 0))"
proof -
  from assms have ne: "documents (fst w) \<noteq> []"
  proof (induction rule: reachable.induct)
    case (start now snips fs db)
    show ?case by (simp add: init_def)
  next
    case (step w c w' m)
    then show ?case using exec_nonempty by blast
  qed
  moreover from ne have "\<exists>doc. get_current_document (fst w) = Inr doc"
    using get_current_document_total by blast
  moreover have "\<forall>a. documents a \<noteq> [] \<and>
               \<not> (0 \<le> current_doc_index a \<and> current_doc_index a < int (length (documents a)))
               \<longrightarrow> get_current_document a = Inr (documents a ! 0)"
    by (simp add: get_current_document_def)
  ultimately show ?thesis by blast
qed

theorem store_never_empty_witness:
  "reachable w0 \<and> documents (fst w0) \<noteq> [] \<and> (\<exists>doc. get_current_document (fst w0) = Inr doc)"
  using store_never_empty[of w0] reachable.start[of 0 "[]" fs0 db0]
  by (simp add: w0_def)

subsection \<open>Edit, save, replace and close\<close>

lemma map_update_same: "i < length xs \<Longrightarrow> f y = f (xs ! i) \<Longrightarrow> map f (xs[i := y]) = map f xs"
  by (simp add: list_eq_iff_nth_eq nth_list_update)

lemma exec_edit_or_save_docs:
  assumes "exec c w = Inr (w', m)" and "is_edit c \<or> is_save c"
  shows "documents (fst w') = documents (fst w)
     \<or> (\<exists>i < length (documents (fst w)). \<exists>c r. documents (fst w') =
           (documents (fst w))[i := (documents (fst w) ! i)\<lparr>content := c, modified := True, data_raw := r\<rparr>])
     \<or> (\<exists>i < length (documents (fst w)). \<exists>c. documents (fst w') =
           (documents (fst w))[i := (documents (fst w) ! i)\<lparr>content := c, modified := True\<rparr>])
     \<or> (is_save c \<and> (\<exists>i < length (documents (fst w)). \<exists>p n. documents (fst w') =
           (documents (fst w))[i := (documents (fst w) ! i)\<lparr>file_path := Some p, name := n, modified := False\<rparr>]))"
proof -
  obtain a fs db where w: "w = (a, fs, db)" by (cases w rule: prod_cases3)
  obtain a' fs' db' where w': "w' = (a', fs', db')" by (cases w' rule: prod_cases3)
  show ?thesis
  proof (cases c)
    case (Save filename typed)
    with assms w w' obtain fs2 where "save_file filename typed (a, fs) = Inr (a', fs2, m)"
      by (auto split: sum.splits prod.splits)
    from save_file_docs[OF this] Save show ?thesis unfolding w w' fst_conv by (simp del: ex_simps) blast
  next
    case (Edit typed)
    with assms w w' have "edit_document typed a = Inr (a', m)"
      by (auto split: sum.splits prod.splits)
    from edit_document_docs[OF this] show ?thesis unfolding w w' fst_conv by blast
  next
    case (Replace find_text replace_text)
    with assms w w' have "replace_in_document find_text replace_text a = Inr (a', m)"
      by (auto split: sum.splits prod.splits)
    from replace_in_document_docs[OF this] show ?thesis unfolding w w' fst_conv by blast
  next
    case (Snippet typed)
    with assms w w' have "use_snippet typed a = Inr (a', m)"
      by (auto split: sum.splits prod.splits)
    from use_snippet_docs[OF this] show ?thesis unfolding w w' fst_conv by blast
  next
    case (TextChanged new_content)
    with assms w w' have "a' = on_text_changed new_content a" by auto
    with on_text_changed_docs[of new_content a] show ?thesis unfolding w w' fst_conv by blast
  qed (use assms(2) in auto)
qed

text \<open>
  C1, as the code has it. The checksum is computed when a document is constructed, from
  the content it is constructed with. An edit (the commands that replace the content of
  a document) and a save leave the checksum field of every document as it is; a save
  leaves the content as it is too, so the checksum is the hash of the content after a
  save exactly when it was before.
\<close>

theorem checksum_fixed_at_construction:
  assumes "exec c w = Inr (w', msgs)" and "is_edit c \<or> is_save c"
  shows "map checksum (documents (fst w')) = map checksum (documents (fst w)) \<and>
         (is_save c \<longrightarrow> map content (documents (fst w')) = map content (documents (fst w)) \<and>
                        map checksum_current (documents (fst w')) = map checksum_current (documents (fst w))) \<and>
         checksum_current (new_DocumentTab now nm txt path)"
proof -
  have fresh: "checksum_current (new_DocumentTab now nm txt path)"
    by (simp add: checksum_current_def)
  have cs: "map checksum (documents (fst w')) = map checksum (documents (fst w))"
    using exec_edit_or_save_docs[OF assms]
    by (elim disjE exE conjE) (simp_all add: map_update_same)
  have "map content (documents (fst w')) = map content (documents (fst w)) \<and>
        map checksum_current (documents (fst w')) = map checksum_current (documents (fst w))"
    if "is_save c"
  proof -
    obtain a fs db where w: "w = (a, fs, db)" by (cases w rule: prod_cases3)
    obtain a' fs' db' where w': "w' = (a', fs', db')" by (cases w' rule: prod_cases3)
    from that obtain filename typed where c: "c = Save filename typed" by (cases c) auto
    with assms w w' obtain fs2 where "save_file filename typed (a, fs) = Inr (a', fs2, msgs)"
      by (auto split: sum.splits prod.splits)
    from save_file_docs[OF this] show ?thesis
      unfolding w w' fst_conv
      by (elim disjE exE conjE) (simp_all add: map_update_same checksum_current_def)
  qed
  with fresh cs show ?thesis by blast
qed

theorem checksum_fixed_at_construction_witness:
  "exec (Edit (Some [''a''])) w0 =
     Inr ((set_current (init 0 [])
             ((new_DocumentTab 0 ''Untitled'' [] None)
                \<lparr>content := ''a'', modified := True, data_raw := encode ''a''\<rparr>), fs0, db0),
          [DocumentUpdated]) \<and>
   map checksum (documents (set_current (init 0 [])
             ((new_DocumentTab 0 ''Untitled'' [] None)
                \<lparr>content := ''a'', modified := True, data_raw := encode ''a''\<rparr>))) =
   map checksum (documents (init 0 []))"
proof -
  have e: "exec (Edit (Some [''a''])) w0 =
     Inr ((set_current (init 0 [])
             ((new_DocumentTab 0 ''Untitled'' [] None)
                \<lparr>content := ''a'', modified := True, data_raw := encode ''a''\<rparr>), fs0, db0),
          [DocumentUpdated])"
    by (simp add: w0_def edit_document_def get_current_document_def init_def Let_def)
  from checksum_fixed_at_construction[OF e] e show ?thesis
    by (simp add: w0_def)
qed

text \<open>
  C1 as the claim states it fails: after the first document is edited to hold \<open>a\<close>, its
  checksum is still the hash of the empty text it was constructed with.
\<close>

theorem edit_leaves_checksum_counterexample:
  "map_sum id (\<lambda>(a, m). (m, map content (documents a), map checksum (documents a),
                          map checksum_current (documents a)))
     (edit_document (Some [''a'']) (init 0 [])) =
   Inr ([DocumentUpdated], [''a''], [''d41d8cd98f00b204e9800998ecf8427e''], [False])"
  by (simp add: edit_document_def get_current_document_def current_slot_def init_def Let_def
      checksum_current_def md5_empty md5_a)

lemma save_file_result:
  assumes "get_current_document a = Inr doc" and "save_path fs filename typed doc = Inr (Some path)"
  shows "save_file filename typed (a, fs) =
     (case write_text fs path (content doc) of
        None \<Rightarrow> Inr (a, fs, [ErrorSaving])
      | Some fs2 \<Rightarrow>
          Inr (set_current a (doc\<lparr>file_path := Some path, name := path_name path, modified := False\<rparr>),
               fs2, [Saved path]))"
  using assms by (simp add: save_file_def)

text \<open>
  C2. A save that writes the file reports it and clears the modified flag of the
  document; a save whose write fails reports the error and leaves the store and the file
  system as they were, the modified flag with them; and no command other than a save
  clears the modified flag of a document.
\<close>

theorem save_clears_modified:
  assumes "exec c (a, fs, db) = Inr ((a', fs', db'), msgs)"
  shows "(\<forall>filename typed doc path.
            c = Save filename typed \<and> get_current_document a = Inr doc \<and>
            save_path fs filename typed doc = Inr (Some path) \<longrightarrow>
            (\<forall>fs2. write_text fs path (content doc) = Some fs2 \<longrightarrow>
               msgs = [Saved path] \<and> fs' = fs2 \<and> \<not> modified (documents a' ! current_slot a) \<and>
               content (documents a' ! current_slot a) = content doc) \<and>
            (write_text fs path (content doc) = None \<longrightarrow>
               msgs = [ErrorSaving] \<and> a' = a \<and> fs' = fs)) \<and>
         (\<not> is_save c \<longrightarrow> none_cleared (documents a) (documents a'))"
proof -
  have other: "none_cleared (documents a) (documents a')" if "\<not> is_save c"
    using exec_none_cleared[OF assms] that by simp
  have ok: "msgs = [Saved path] \<and> fs' = fs2 \<and> \<not> modified (documents a' ! current_slot a) \<and>
        content (documents a' ! current_slot a) = content doc"
    if h: "c = Save filename typed \<and> get_current_document a = Inr doc \<and>
            save_path fs filename typed doc = Inr (Some path)"
      and wr: "write_text fs path (content doc) = Some fs2"
    for filename typed doc path fs2
  proof -
    from h have slot: "current_slot a < length (documents a)" using current_doc by blast
    from h wr assms save_file_result[of a doc fs filename typed path] slot
    show ?thesis by auto
  qed
  have failed: "msgs = [ErrorSaving] \<and> a' = a \<and> fs' = fs"
    if h: "c = Save filename typed \<and> get_current_document a = Inr doc \<and>
            save_path fs filename typed doc = Inr (Some path)"
      and wr: "write_text fs path (content doc) = None"
    for filename typed doc path
    using h wr assms save_file_result[of a doc fs filename typed path] by auto
  from other ok failed show ?thesis by blast
qed

theorem save_clears_modified_witness:
  "exec (Save (Some ''notes.txt'') None) (two_docs, fs0, db0) =
     Inr ((set_current two_docs
             ((documents two_docs ! 0)
                \<lparr>file_path := Some ''/notes.txt'', name := ''notes.txt'', modified := False\<rparr>),
           fs0\<lparr>file_exists := (file_exists fs0)(''/notes.txt'' := True),
               contents := (contents fs0)(''/notes.txt'' \<mapsto> ''a'')\<rparr>, db0),
          [Saved ''/notes.txt'']) \<and>
   modified (documents two_docs ! 0) \<and>
   \<not> modified (documents (set_current two_docs
             ((documents two_docs ! 0)
                \<lparr>file_path := Some ''/notes.txt'', name := ''notes.txt'', modified := False\<rparr>)) ! 0)"
proof -
  let ?a' = "set_current two_docs
             ((documents two_docs ! 0)
                \<lparr>file_path := Some ''/notes.txt'', name := ''notes.txt'', modified := False\<rparr>)"
  let ?fs' = "fs0\<lparr>file_exists := (file_exists fs0)(''/notes.txt'' := True),
               contents := (contents fs0)(''/notes.txt'' \<mapsto> ''a'')\<rparr>"
  have g: "get_current_document two_docs = Inr (documents two_docs ! 0)"
    by (simp add: get_current_document_def two_docs_def)
  have p: "save_path fs0 (Some ''notes.txt'') None (documents two_docs ! 0) = Inr (Some ''/notes.txt'')"
    by (simp add: save_path_def fs0_def)
  have c: "content (documents two_docs ! 0) = ''a''"
    by (simp add: two_docs_def)
  have wr: "write_text fs0 ''/notes.txt'' (content (documents two_docs ! 0)) = Some ?fs'"
    by (simp add: c write_text_def fs0_def)
  have e: "exec (Save (Some ''notes.txt'') None) (two_docs, fs0, db0) =
     Inr ((?a', ?fs', db0), [Saved ''/notes.txt''])"
    by (simp add: save_file_result[OF g p] wr path_name_def)
  have s: "current_slot two_docs = 0"
    by (simp add: current_slot_def two_docs_def)
  from save_clears_modified[OF e] g p wr have "\<not> modified (documents ?a' ! current_slot two_docs)"
    by blast
  then have "\<not> modified (documents ?a' ! 0)"
    unfolding s .
  moreover have "modified (documents two_docs ! 0)"
    by (simp add: two_docs_def)
  ultimately show ?thesis using e by blast
qed

lemma lower_char_y: "lower_char c = CHR ''y'' \<longleftrightarrow> c = CHR ''y'' \<or> c = CHR ''Y''"
proof -
  define n where "n = (of_char c :: nat)"
  have lt: "n < 256" by (simp add: n_def)
  have "(c = CHR ''y'') = ((of_char c :: nat) = of_char (CHR ''y''))"
    by (simp only: of_char_eq_iff)
  then have y: "c = CHR ''y'' \<longleftrightarrow> n = 121" by (simp add: n_def)
  have "(c = CHR ''Y'') = ((of_char c :: nat) = of_char (CHR ''Y''))"
    by (simp only: of_char_eq_iff)
  then have Y: "c = CHR ''Y'' \<longleftrightarrow> n = 89" by (simp add: n_def)
  have "(char_of (n + 32) = CHR ''y'') = (take_bit 8 (n + 32) = (of_char (CHR ''y'') :: nat))"
    by (rule char_of_eq_iff)
  then have up: "char_of (n + 32) = CHR ''y'' \<longleftrightarrow> (n + 32) mod 256 = 121"
    by (simp add: take_bit_eq_mod)
  show ?thesis
  proof (cases "(65 \<le> n \<and> n \<le> 90) \<or> (192 \<le> n \<and> n \<le> 214) \<or> (216 \<le> n \<and> n \<le> 222)")
    case True
    then have "lower_char c = char_of (n + 32)"
      by (simp add: lower_char_def n_def Let_def)
    moreover from True have "n + 32 < 256" by auto
    then have "(n + 32) mod 256 = 121 \<longleftrightarrow> n = 89" by auto
    moreover from True have "n \<noteq> 121" by auto
    ultimately show ?thesis using y Y up by simp
  next
    case False
    have "lower_char c = c"
      unfolding lower_char_def Let_def n_def[symmetric] using False by (simp only: if_False)
    moreover from False have "n \<noteq> 89" by auto
    ultimately show ?thesis using y Y by simp
  qed
qed

lemma lower_is_y: "lower r = ''y'' \<longleftrightarrow> r = ''y'' \<or> r = ''Y''"
proof (cases r)
  case Nil
  then show ?thesis by (simp add: lower_def)
next
  case (Cons c t)
  then show ?thesis
    using lower_char_y[of c] by (cases t) (auto simp add: lower_def)
qed

text \<open>
  C8, as the code has it. Replacing is literal, over the whole content. When the content
  changes, which is when the text to find occurs in it and differs from the replacement,
  the number of occurrences is reported with the new content; when the text to find does
  not occur, or is the replacement itself, no match is reported and the store is as it
  was. When the text does not occur, the number of its occurrences is 0.
\<close>

theorem replace_reports_changes:
  assumes "get_current_document a = Inr doc"
  shows "(replace (content doc) find_text replace_text = content doc \<longleftrightarrow>
            \<not> sublist find_text (content doc) \<or> replace_text = find_text) \<and>
         (\<not> sublist find_text (content doc) \<or> replace_text = find_text \<longrightarrow>
            replace_in_document find_text replace_text a = Inr (a, [NoMatches find_text])) \<and>
         (sublist find_text (content doc) \<and> replace_text \<noteq> find_text \<longrightarrow>
            replace_in_document find_text replace_text a =
              Inr (set_current a
                     (doc\<lparr>content := replace (content doc) find_text replace_text, modified := True,
                          data_raw := encode (replace (content doc) find_text replace_text)\<rparr>),
                   [Replaced (count (content doc) find_text) find_text])) \<and>
         (\<not> sublist find_text (content doc) \<longrightarrow> count (content doc) find_text = 0)"
  using assms replace_unchanged_iff[of "content doc" find_text replace_text]
    count_absent[of find_text "content doc"]
  by (auto simp add: replace_in_document_def Let_def)

theorem replace_reports_changes_witness:
  "get_current_document (store_of ''foo foo baz'') = Inr (new_DocumentTab 0 ''Untitled'' ''foo foo baz'' None) \<and>
   sublist ''foo'' ''foo foo baz'' \<and>
   replace_in_document ''foo'' ''bar'' (store_of ''foo foo baz'') =
     Inr (set_current (store_of ''foo foo baz'')
            ((new_DocumentTab 0 ''Untitled'' ''foo foo baz'' None)
               \<lparr>content := ''bar bar baz'', modified := True, data_raw := encode ''bar bar baz''\<rparr>),
          [Replaced 2 ''foo''])"
proof -
  have g: "get_current_document (store_of ''foo foo baz'') =
      Inr (new_DocumentTab 0 ''Untitled'' ''foo foo baz'' None)"
    by (simp add: get_current_document_def store_of_def)
  have s: "sublist ''foo'' ''foo foo baz''"
    using startswith_prefix[of "''foo foo baz''" "''foo''"] prefix_imp_sublist[of "''foo''" "''foo foo baz''"]
    by (simp add: startswith_def)
  have r: "replace ''foo foo baz'' ''foo'' ''bar'' = ''bar bar baz''"
    by (simp add: replace_def replace_from.simps startswith_def)
  have c: "count ''foo foo baz'' ''foo'' = 2"
    by (simp add: count_def count_from.simps startswith_def)
  from replace_reports_changes[OF g, of "''foo''" "''bar''"] g s show ?thesis
    by (simp add: r c)
qed

text \<open>
  C8 as the claim states it fails: the text \<open>foo\<close> occurs once in the content \<open>foo\<close>,
  and replacing it by itself reports that no match was found.
\<close>

theorem replace_by_itself_counterexample:
  "count ''foo'' ''foo'' = 1 \<and>
   replace_in_document ''foo'' ''foo'' (store_of ''foo'') = Inr (store_of ''foo'', [NoMatches ''foo''])"
  by (simp add: count_def count_from.simps replace_def replace_from.simps startswith_def
      replace_in_document_def get_current_document_def store_of_def Let_def)

text \<open>
  C9. Closing fails, and changes nothing, when at most one document is open. When the
  document to close has unsaved changes and the answer to the question is not \<open>y\<close>, the
  store stays as it is (the function reports that closing was cancelled, or the end of
  the input leaves it). Whenever closing removes a document with unsaved changes, the
  question was asked and the answer was \<open>y\<close>.
\<close>

theorem close_needs_confirmation:
  "(length (documents a) \<le> 1 \<longrightarrow> close_document index response a = Inr (a, [CannotCloseLast])) \<and>
   (\<forall>idx. 1 < length (documents a) \<and> close_target index a = Some idx \<and>
          0 \<le> idx \<and> idx < int (length (documents a)) \<and> modified (documents a ! nat idx) \<and>
          response \<noteq> Some ''y'' \<and> response \<noteq> Some ''Y'' \<longrightarrow>
          close_document index response a =
            (if response = None then Inl EOFError
             else Inr (a, [UnsavedChanges (name (documents a ! nat idx)), CloseCancelled]))) \<and>
   (\<forall>a' msgs. close_document index response a = Inr (a', msgs) \<and> documents a' \<noteq> documents a \<longrightarrow>
      (\<exists>i < length (documents a).
          documents a' = take i (documents a) @ drop (Suc i) (documents a) \<and>
          (modified (documents a ! i) \<longrightarrow>
             (response = Some ''y'' \<or> response = Some ''Y'') \<and>
             msgs = [UnsavedChanges (name (documents a ! i)), Closed (name (documents a ! i))])))"
proof -
  have one: "close_document index response a = Inr (a, [CannotCloseLast])"
    if "length (documents a) \<le> 1"
    using that by (simp add: close_document_def)
  have refused: "close_document index response a =
            (if response = None then Inl EOFError
             else Inr (a, [UnsavedChanges (name (documents a ! nat idx)), CloseCancelled]))"
    if "1 < length (documents a) \<and> close_target index a = Some idx \<and>
          0 \<le> idx \<and> idx < int (length (documents a)) \<and> modified (documents a ! nat idx) \<and>
          response \<noteq> Some ''y'' \<and> response \<noteq> Some ''Y''" for idx
  proof (cases response)
    case None
    with that show ?thesis by (simp add: close_document_def Let_def)
  next
    case (Some r)
    with that have "lower r \<noteq> ''y''" using lower_is_y[of r] by simp
    with that Some show ?thesis by (simp add: close_document_def Let_def)
  qed
  have removed: "\<exists>i < length (documents a).
          documents a' = take i (documents a) @ drop (Suc i) (documents a) \<and>
          (modified (documents a ! i) \<longrightarrow>
             (response = Some ''y'' \<or> response = Some ''Y'') \<and>
             msgs = [UnsavedChanges (name (documents a ! i)), Closed (name (documents a ! i))])"
    if h: "close_document index response a = Inr (a', msgs) \<and> documents a' \<noteq> documents a"
    for a' msgs
  proof -
    from h have len: "\<not> length (documents a) \<le> 1"
      by (auto simp add: close_document_def)
    with h obtain idx where t: "close_target index a = Some idx"
      by (cases "close_target index a") (auto simp add: close_document_def)
    with h len have rng: "0 \<le> idx \<and> idx < int (length (documents a))"
      by (auto simp add: close_document_def split: if_splits)
    then have i: "nat idx < length (documents a)" by linarith
    let ?doc = "documents a ! nat idx"
    show ?thesis
    proof (cases "modified ?doc")
      case False
      with h len t rng have "documents a' = take (nat idx) (documents a) @ drop (Suc (nat idx)) (documents a)"
        by (auto simp add: close_document_def Let_def)
      with False i show ?thesis by blast
    next
      case True
      with h len t rng obtain r where r: "response = Some r"
        by (cases response) (auto simp add: close_document_def Let_def)
      with h len t rng True have y: "lower r = ''y''"
        by (auto simp add: close_document_def Let_def split: if_splits)
      with h len t rng True r
      have "documents a' = take (nat idx) (documents a) @ drop (Suc (nat idx)) (documents a) \<and>
            msgs = [UnsavedChanges (name ?doc), Closed (name ?doc)]"
        by (auto simp add: close_document_def Let_def)
      moreover from y r have "response = Some ''y'' \<or> response = Some ''Y''"
        using lower_is_y[of r] by simp
      ultimately show ?thesis using i by blast
    qed
  qed
  from one refused removed show ?thesis by blast
qed

theorem close_needs_confirmation_witness:
  "length (documents (init 0 [])) \<le> 1 \<and>
   close_document None None (init 0 []) = Inr (init 0 [], [CannotCloseLast]) \<and>
   1 < length (documents two_docs) \<and> close_target None two_docs = Some 0 \<and>
   modified (documents two_docs ! nat 0) \<and>
   close_document None (Some ''n'') two_docs = Inr (two_docs, [UnsavedChanges ''Untitled'', CloseCancelled])"
proof -
  have l: "length (documents (init 0 [])) \<le> 1"
    by (simp add: init_def)
  have h: "1 < length (documents two_docs) \<and> close_target None two_docs = Some 0 \<and>
          0 \<le> (0::int) \<and> 0 < int (length (documents two_docs)) \<and> modified (documents two_docs ! nat 0) \<and>
          Some ''n'' \<noteq> Some ''y'' \<and> Some ''n'' \<noteq> Some ''Y''"
    by (simp add: two_docs_def close_target_def)
  have n: "name (documents two_docs ! nat 0) = ''Untitled''"
    by (simp add: two_docs_def)
  from close_needs_confirmation[of "init 0 []" None None] l
  have "close_document None None (init 0 []) = Inr (init 0 [], [CannotCloseLast])"
    by blast
  moreover from close_needs_confirmation[of two_docs None "Some ''n''"] h
  have "close_document None (Some ''n'') two_docs =
      (if Some ''n'' = (None :: string option) then Inl EOFError
       else Inr (two_docs, [UnsavedChanges (name (documents two_docs ! nat 0)), CloseCancelled]))"
    by blast
  ultimately show ?thesis using l h n by simp
qed

subsection \<open>The fetch coordinator\<close>

lemma fold_update_dom:
  "dom (fold (\<lambda>i results. case f i of (k, v) \<Rightarrow> results(k \<mapsto> v)) order m) =
     dom m \<union> (fst \<circ> f) ` set order"
  by (induction order arbitrary: m) (auto split: prod.splits)

lemma fold_update_value:
  "fold (\<lambda>i results. case f i of (k, v) \<Rightarrow> results(k \<mapsto> v)) order m key = m key \<or>
   (\<exists>i \<in> set order. fst (f i) = key \<and>
      fold (\<lambda>i results. case f i of (k, v) \<Rightarrow> results(k \<mapsto> v)) order m key = Some (snd (f i)))"
proof (induction order arbitrary: m)
  case Nil
  show ?case by simp
next
  case (Cons i order)
  obtain k v where kv: "f i = (k, v)" by (cases "f i")
  let ?F = "\<lambda>i results. case f i of (k, v) \<Rightarrow> results(k \<mapsto> v)"
  have step: "fold ?F (i # order) m = fold ?F order (m(k \<mapsto> v))"
    by (simp add: kv)
  have ih: "fold ?F order (m(k \<mapsto> v)) key = (m(k \<mapsto> v)) key \<or>
      (\<exists>j \<in> set order. fst (f j) = key \<and> fold ?F order (m(k \<mapsto> v)) key = Some (snd (f j)))"
    by (rule Cons.IH)
  show ?case
    unfolding step
  proof (cases "k = key")
    case True
    from ih show "fold ?F order (m(k \<mapsto> v)) key = m key \<or>
      (\<exists>j \<in> set (i # order). fst (f j) = key \<and> fold ?F order (m(k \<mapsto> v)) key = Some (snd (f j)))"
    proof
      assume "fold ?F order (m(k \<mapsto> v)) key = (m(k \<mapsto> v)) key"
      with True kv have "fst (f i) = key \<and> fold ?F order (m(k \<mapsto> v)) key = Some (snd (f i))"
        by simp
      then show ?thesis by auto
    next
      assume "\<exists>j \<in> set order. fst (f j) = key \<and> fold ?F order (m(k \<mapsto> v)) key = Some (snd (f j))"
      then show ?thesis by auto
    qed
  next
    case False
    from ih show "fold ?F order (m(k \<mapsto> v)) key = m key \<or>
      (\<exists>j \<in> set (i # order). fst (f j) = key \<and> fold ?F order (m(k \<mapsto> v)) key = Some (snd (f j)))"
    proof
      assume "fold ?F order (m(k \<mapsto> v)) key = (m(k \<mapsto> v)) key"
      with False show ?thesis by simp
    next
      assume "\<exists>j \<in> set order. fst (f j) = key \<and> fold ?F order (m(k \<mapsto> v)) key = Some (snd (f j))"
      then show ?thesis by auto
    qed
  qed
qed

text \<open>
  C5. For every list of URLs, every outcome of the requests and every order in which they
  complete, the fetch with a positive pool size (5 when none is given) returns a mapping,
  it raises nothing; the keys of the mapping are the URLs of the list, one entry for each
  distinct URL; the value of a URL is the outcome of a request for it, the decoded body
  or, for a request that failed, the text \<open>Error: \<close> followed by the message of the
  failure. When the URLs are distinct, the value of each is the outcome of its request.
\<close>

theorem fetch_returns_one_entry_per_url:
  assumes "0 < max_workers" and "set order = {..<length urls}"
  shows "\<exists>results.
     fetch_multiple_urls decode respond order urls max_workers = Inr results \<and>
     dom results = set urls \<and>
     (\<forall>url \<in> set urls. \<exists>i < length urls. urls ! i = url \<and>
        results url = Some (case respond i of Inr body \<Rightarrow> decode body | Inl e \<Rightarrow> ''Error: '' @ e)) \<and>
     (distinct urls \<longrightarrow> (\<forall>i < length urls.
        results (urls ! i) = Some (case respond i of Inr body \<Rightarrow> decode body | Inl e \<Rightarrow> ''Error: '' @ e)))"
proof -
  define f where "f = (\<lambda>i. fetch_single decode (urls ! i) (respond i))"
  define results where
    "results = fold (\<lambda>i results. case f i of (k, v) \<Rightarrow> results(k \<mapsto> v)) order Map.empty"
  have fst_f: "fst (f i) = urls ! i" for i
    by (simp add: f_def fetch_single_def split: sum.splits)
  have snd_f: "snd (f i) = (case respond i of Inr body \<Rightarrow> decode body | Inl e \<Rightarrow> ''Error: '' @ e)" for i
    by (simp add: f_def fetch_single_def split: sum.splits)
  have r: "fetch_multiple_urls decode respond order urls max_workers = Inr results"
    using assms(1) by (simp add: fetch_multiple_urls_def results_def f_def)
  have "dom results = (fst \<circ> f) ` set order"
    unfolding results_def by (simp add: fold_update_dom)
  also have "\<dots> = (\<lambda>i. urls ! i) ` {..<length urls}"
    using assms(2) by (simp add: fst_f comp_def)
  also have "\<dots> = set urls"
    by (auto simp add: set_conv_nth)
  finally have d: "dom results = set urls" .
  have v: "\<exists>i < length urls. urls ! i = url \<and> results url = Some (snd (f i))"
    if "url \<in> set urls" for url
  proof -
    from that d have "results url \<noteq> None" by blast
    with fold_update_value[of f order Map.empty url]
    obtain i where "i \<in> set order" and "fst (f i) = url" and "results url = Some (snd (f i))"
      unfolding results_def by auto
    with assms(2) fst_f show ?thesis by auto
  qed
  have u: "results (urls ! i) = Some (snd (f i))" if "distinct urls" and "i < length urls" for i
  proof -
    from that(2) have "urls ! i \<in> set urls" by simp
    from v[OF this] obtain j where j: "j < length urls" "urls ! j = urls ! i"
      "results (urls ! i) = Some (snd (f j))" by blast
    with that have "j = i" by (simp add: nth_eq_iff_index_eq)
    with j show ?thesis by simp
  qed
  from r d v u show ?thesis unfolding snd_f by blast
qed

theorem fetch_returns_one_entry_per_url_witness:
  "(0::int) < 5 \<and> set [1, 0] = {..<length [''http://a'', ''http://b'']} \<and>
   (\<exists>results.
      fetch_multiple_urls (map char_of) (\<lambda>i. if i = 0 then Inr [111, 107] else Inl ''timed out'')
        [1, 0] [''http://a'', ''http://b''] 5 = Inr results \<and>
      dom results = {''http://a'', ''http://b''} \<and>
      results ''http://a'' = Some ''ok'' \<and>
      results ''http://b'' = Some ''Error: timed out'')"
proof -
  have s: "set [1, 0] = {..<length [''http://a'', ''http://b'']}"
    by auto
  from fetch_returns_one_entry_per_url[of 5 "[1, 0]" "[''http://a'', ''http://b'']" "map char_of"
      "\<lambda>i. if i = 0 then Inr [111, 107] else Inl ''timed out''", OF _ s]
  obtain results where r: "fetch_multiple_urls (map char_of)
        (\<lambda>i. if i = 0 then Inr [111, 107] else Inl ''timed out'')
        [1, 0] [''http://a'', ''http://b''] 5 = Inr results"
    and d: "dom results = set [''http://a'', ''http://b'']"
    by auto
  have o: "char_of (111::nat) = CHR ''o''"
    by (rule of_char_eqI[where ?'a = nat]) simp
  have k: "char_of (107::nat) = CHR ''k''"
    by (rule of_char_eqI[where ?'a = nat]) simp
  from r have "results = [''http://b'' \<mapsto> ''Error: timed out'', ''http://a'' \<mapsto> ''ok'']"
    by (simp add: fetch_multiple_urls_def fetch_single_def o k)
  then have "results ''http://a'' = Some ''ok'' \<and> results ''http://b'' = Some ''Error: timed out''"
    by simp
  with r d s show ?thesis by auto
qed

subsection \<open>The content analyzer\<close>

lemma max_by_snd_first:
  "\<exists>pre post. b # xs = pre @ max_by_snd b xs # post \<and>
     (\<forall>x \<in> set pre. snd x < snd (max_by_snd b xs)) \<and>
     (\<forall>x \<in> set post. snd x \<le> snd (max_by_snd b xs))"
proof (induction xs arbitrary: b)
  case Nil
  show ?case by (rule exI[of _ "[]"], rule exI[of _ "[]"]) simp
next
  case (Cons x xs)
  define b' where "b' = (if snd b < snd x then x else b)"
  define m where "m = max_by_snd b' xs"
  have step: "max_by_snd b (x # xs) = m"
    by (simp add: b'_def m_def)
  from Cons.IH[of b'] obtain pre post where
    sp: "b' # xs = pre @ m # post" and
    lt: "\<forall>y \<in> set pre. snd y < snd m" and
    le: "\<forall>y \<in> set post. snd y \<le> snd m"
    unfolding m_def by blast
  show ?case
    unfolding step
  proof (cases pre)
    case Nil
    with sp have bm: "b' = m" and xs: "xs = post" by simp_all
    show "\<exists>pre post. b # x # xs = pre @ m # post \<and>
        (\<forall>y \<in> set pre. snd y < snd m) \<and> (\<forall>y \<in> set post. snd y \<le> snd m)"
    proof (cases "snd b < snd x")
      case True
      then have "b' = x" by (simp add: b'_def)
      with bm xs True have "b # x # xs = [b] @ m # post" and "snd b < snd m" by simp_all
      with le show ?thesis by (intro exI[of _ "[b]"] exI[of _ post]) simp
    next
      case False
      then have "b' = b" by (simp add: b'_def)
      with bm xs False have "b # x # xs = [] @ m # (x # post)" and "snd x \<le> snd m" by simp_all
      with le show ?thesis by (intro exI[of _ "[]"] exI[of _ "x # post"]) simp
    qed
  next
    case (Cons p pre')
    with sp have p: "p = b'" and xs: "xs = pre' @ m # post" by simp_all
    from lt Cons p have b'm: "snd b' < snd m" and lt': "\<forall>y \<in> set pre'. snd y < snd m" by simp_all
    have "snd b \<le> snd b'" and "snd x \<le> snd b'" by (simp_all add: b'_def)
    with b'm have "snd b < snd m" and "snd x < snd m" by simp_all
    moreover have "b # x # xs = (b # x # pre') @ m # post" using xs by simp
    ultimately show "\<exists>pre post. b # x # xs = pre @ m # post \<and>
        (\<forall>y \<in> set pre. snd y < snd m) \<and> (\<forall>y \<in> set post. snd y \<le> snd m)"
      using lt' le by (intro exI[of _ "b # x # pre'"] exI[of _ post]) simp
  qed
qed

lemma max_list_zero: "max_list ns = 0 \<longleftrightarrow> (\<forall>n \<in> set ns. n = 0)"
  by (induction ns) auto


text \<open>
  C7. The language detected is a function of the text (and of what the regular expressions
  match in it): the table is a list, gone through in its order. It is \<open>text\<close> exactly when
  the score of every language is zero. Otherwise it is the language of the first entry of
  the table that has the highest score: every entry before it has a smaller score, every
  entry after it has a score that is not greater.
\<close>

theorem detect_language_first_highest:
  "(detect_language re_search txt = ''text'' \<longleftrightarrow>
      (\<forall>(lang, regexes) \<in> set patterns. score re_search regexes (lower txt) = 0)) \<and>
   (\<not> (\<forall>(lang, regexes) \<in> set patterns. score re_search regexes (lower txt) = 0) \<longrightarrow>
      (\<exists>pre lang regexes post. patterns = pre @ (lang, regexes) # post \<and>
         detect_language re_search txt = lang \<and>
         (\<forall>(l, r) \<in> set pre. score re_search r (lower txt) < score re_search regexes (lower txt)) \<and>
         (\<forall>(l, r) \<in> set post. score re_search r (lower txt) \<le> score re_search regexes (lower txt))))"
proof -
  define g :: "string \<times> string list \<Rightarrow> string \<times> nat"
    where "g = (\<lambda>(lang, regexes). (lang, score re_search regexes (lower txt)))"
  define scores where "scores = map g patterns"
  define m where "m = max_by_snd (hd scores) (tl scores)"
  have ne: "scores \<noteq> []"
    by (simp add: scores_def patterns_def)
  have zero: "max_list (map snd scores) = 0 \<longleftrightarrow>
      (\<forall>(lang, regexes) \<in> set patterns. score re_search regexes (lower txt) = 0)"
    by (auto simp add: max_list_zero scores_def g_def split: prod.splits)
  have d: "detect_language re_search txt = (if max_list (map snd scores) > 0 then fst m else ''text'')"
    by (simp add: detect_language_def Let_def scores_def g_def m_def)
  from max_by_snd_first[of "hd scores" "tl scores"] ne obtain pre' post' where
    sp: "scores = pre' @ m # post'" and
    lt: "\<forall>y \<in> set pre'. snd y < snd m" and
    le: "\<forall>y \<in> set post'. snd y \<le> snd m"
    unfolding m_def by auto
  from sp obtain pre p post where
    pats: "patterns = pre @ p # post" and pre': "pre' = map g pre" and gm: "m = g p" and
    post': "post' = map g post"
    unfolding scores_def by (auto simp add: map_eq_append_conv map_eq_Cons_conv)
  obtain lang regexes where p: "p = (lang, regexes)" by (cases p)
  have fm: "fst m = lang" and sm: "snd m = score re_search regexes (lower txt)"
    by (simp_all add: gm p g_def)
  have names: "''text'' \<notin> fst ` set patterns"
    by (simp add: patterns_def)
  have "p \<in> set patterns" by (subst pats) simp
  then have "fst p \<in> fst ` set patterns" by (rule imageI)
  then have "lang \<in> fst ` set patterns" by (simp only: p fst_conv)
  with names have nt: "lang \<noteq> ''text''" by metis
  have first: "\<forall>(l, r) \<in> set pre. score re_search r (lower txt) < score re_search regexes (lower txt)"
    using lt by (auto simp add: pre' sm g_def)
  have rest: "\<forall>(l, r) \<in> set post. score re_search r (lower txt) \<le> score re_search regexes (lower txt)"
    using le by (auto simp add: post' sm g_def)
  have a: "detect_language re_search txt = ''text'' \<longleftrightarrow>
      (\<forall>(lang, regexes) \<in> set patterns. score re_search regexes (lower txt) = 0)"
    using d zero fm nt by auto
  have b: "\<exists>pre lang regexes post. patterns = pre @ (lang, regexes) # post \<and>
         detect_language re_search txt = lang \<and>
         (\<forall>(l, r) \<in> set pre. score re_search r (lower txt) < score re_search regexes (lower txt)) \<and>
         (\<forall>(l, r) \<in> set post. score re_search r (lower txt) \<le> score re_search regexes (lower txt))"
    if "\<not> (\<forall>(lang, regexes) \<in> set patterns. score re_search regexes (lower txt) = 0)"
  proof -
    from that d zero fm have "detect_language re_search txt = lang" by auto
    with pats p first rest show ?thesis by blast
  qed
  from a b show ?thesis by blast
qed

theorem detect_language_first_highest_witness:
  "detect_language search_div ''<div>'' = ''html'' \<and>
   (\<exists>pre regexes post. patterns = pre @ (''html'', regexes) # post)"
proof -
  have e: "detect_language search_div ''<div>'' = ''html''"
    by (simp add: detect_language_def Let_def patterns_def score_def search_div_def BS_def DQ_def
        lower_def lower_char_def)
  then have "detect_language search_div ''<div>'' \<noteq> ''text''" by simp
  with detect_language_first_highest[of search_div "''<div>''"] e show ?thesis
    by metis
qed

subsection \<open>The reversible transform\<close>















































end
